theory Spec2Isabelle
  imports Main
begin

section \<open>JavaScript values and string primitives\<close>

text \<open>
  The two parsers of the repository are \<open>parseResumeMarkdown\<close>
  (src/components/ResumeCreator.tsx) and \<open>SummaryRenderer\<close> with its inner
  \<open>parseLine\<close> (the summary display component). Both are pure functions of one
  string. Strings are lists of code units; the model restricts code units to
  the range 0..255 of \<open>char\<close>. Within that range the white space of
  \<open>String.prototype.trim\<close> and of the class \<open>\s\<close> is TAB, LF, VT, FF, CR, SP
  and NBSP, and the line terminators excluded by \<open>.\<close> are LF and CR.

  The source has no \<open>throw\<close>; the one way in which it could raise is a method
  call on \<open>undefined\<close>, when it trims a group of a match. The model keeps
  that as the error \<open>TypeError\<close>, and the parser returns \<open>error + _\<close>.
  The argument of \<open>parseResumeMarkdown\<close> is any value, since the source tests
  its type.
\<close>

datatype js_value = JUndefined | JNull | JBool bool | JNumber int | JString string

datatype error = TypeError

fun truthy :: "js_value \<Rightarrow> bool" where
  "truthy JUndefined = False"
| "truthy JNull = False"
| "truthy (JBool b) = b"
| "truthy (JNumber n) = (n \<noteq> 0)"
| "truthy (JString s) = (s \<noteq> [])"

fun is_string :: "js_value \<Rightarrow> bool" where
  "is_string (JString s) = True"
| "is_string _ = False"

definition isLineTerminator :: "char \<Rightarrow> bool" where
  "isLineTerminator c = (c = CHR 0x0A \<or> c = CHR 0x0D)"

definition isWhiteSpace :: "char \<Rightarrow> bool" where
  "isWhiteSpace c =
     (c = CHR 0x09 \<or> c = CHR 0x0A \<or> c = CHR 0x0B \<or> c = CHR 0x0C \<or> c = CHR 0x0D \<or>
      c = CHR 0x20 \<or> c = CHR 0xA0)"

definition trim :: "string \<Rightarrow> string" where
  "trim s = rev (dropWhile isWhiteSpace (rev (dropWhile isWhiteSpace s)))"

definition startsWith :: "string \<Rightarrow> string \<Rightarrow> bool" where
  "startsWith p s = (take (length p) s = p)"

definition endsWith :: "string \<Rightarrow> string \<Rightarrow> bool" where
  "endsWith p s = (length p \<le> length s \<and> drop (length s - length p) s = p)"

text \<open>\<open>s.split(c)\<close> for a one-character separator: never empty, \<open>''''\<close> gives \<open>['''']\<close>.\<close>

fun split_chr :: "char \<Rightarrow> string \<Rightarrow> string list" where
  "split_chr c [] = [[]]"
| "split_chr c (x # xs) =
     (if x = c then [] # split_chr c xs
      else (case split_chr c xs of [] \<Rightarrow> [[x]] | y # ys \<Rightarrow> (x # y) # ys))"

text \<open>\<open>s.replace(pat, rep)\<close> with a string pattern: only the first occurrence,
  wherever it is.\<close>

fun replace_str :: "string \<Rightarrow> string \<Rightarrow> string \<Rightarrow> string" where
  "replace_str pat rep [] = (if pat = [] then rep else [])"
| "replace_str pat rep (x # xs) =
     (if startsWith pat (x # xs) then rep @ drop (length pat) (x # xs)
      else x # replace_str pat rep xs)"

definition slice :: "int \<Rightarrow> int \<Rightarrow> string \<Rightarrow> string" where
  "slice a b s =
     (let len = int (length s);
          from = (if a < 0 then max (len + a) 0 else min a len);
          to = (if b < 0 then max (len + b) 0 else min b len)
      in take (nat (to - from)) (drop (nat from) s))"

definition substring :: "nat \<Rightarrow> string \<Rightarrow> string" where
  "substring a s = drop (min a (length s)) s"

fun join :: "string \<Rightarrow> string list \<Rightarrow> string" where
  "join sep [] = []"
| "join sep [x] = x"
| "join sep (x # y # ys) = x @ sep @ join sep (y # ys)"

fun shift :: "'a list \<Rightarrow> 'a option \<times> 'a list" where
  "shift [] = (None, [])"
| "shift (x # xs) = (Some x, xs)"

section \<open>Regular expressions\<close>

text \<open>
  The patterns of the source are kept as syntax trees and run by a backtracking
  matcher. \<open>ms r (i, s) c\<close> lists, in the order in which backtracking tries them,
  the states in which \<open>r\<close> can stop when started at index \<open>i\<close> with input rest
  \<open>s\<close> and captures \<open>c\<close>; the head of the list is the match the engine reports.
  A greedy star tries another round first, a lazy one tries to stop first, and
  a round of a star that consumes nothing is rejected (the rest of the input
  must get shorter); the first round of \<open>+?\<close> may consume nothing. Captures
  are not reset between the rounds of a quantifier: no pattern of the source
  has a group under a quantifier.
\<close>

datatype rx = Eps | Chr char | Dot | Space | NotChr char | Bol
  | Seq rx rx | Alt rx rx | Star rx | StarLazy rx | PlusLazy rx | Grp nat rx

type_synonym caps = "nat \<Rightarrow> string option"
type_synonym mstate = "nat \<times> string"

fun one_char :: "(char \<Rightarrow> bool) \<Rightarrow> mstate \<Rightarrow> caps \<Rightarrow> (mstate \<times> caps) list" where
  "one_char P (i, []) c = []"
| "one_char P (i, x # xs) c = (if P x then [((Suc i, xs), c)] else [])"

fun rx_rank :: "rx \<Rightarrow> nat" where
  "rx_rank (Seq a b) = Suc (rx_rank a + rx_rank b)"
| "rx_rank (Alt a b) = Suc (rx_rank a + rx_rank b)"
| "rx_rank (Star a) = Suc (rx_rank a)"
| "rx_rank (StarLazy a) = Suc (rx_rank a)"
| "rx_rank (PlusLazy a) = Suc (Suc (rx_rank a))"
| "rx_rank (Grp n a) = Suc (rx_rank a)"
| "rx_rank _ = 0"

function ms :: "rx \<Rightarrow> mstate \<Rightarrow> caps \<Rightarrow> (mstate \<times> caps) list" where
  "ms Eps st c = [(st, c)]"
| "ms (Chr a) st c = one_char (\<lambda>x. x = a) st c"
| "ms Dot st c = one_char (\<lambda>x. \<not> isLineTerminator x) st c"
| "ms Space st c = one_char isWhiteSpace st c"
| "ms (NotChr a) st c = one_char (\<lambda>x. x \<noteq> a) st c"
| "ms Bol st c = (if fst st = 0 then [(st, c)] else [])"
| "ms (Seq a b) st c = concat (map (\<lambda>(st', c'). ms b st' c') (ms a st c))"
| "ms (Alt a b) st c = ms a st c @ ms b st c"
| "ms (Star a) st c =
     concat (map (\<lambda>(st', c'). if length (snd st') < length (snd st)
                               then ms (Star a) st' c' else [])
                 (ms a st c)) @ [(st, c)]"
| "ms (StarLazy a) st c =
     (st, c) # concat (map (\<lambda>(st', c'). if length (snd st') < length (snd st)
                                         then ms (StarLazy a) st' c' else [])
                           (ms a st c))"
| "ms (PlusLazy a) st c = concat (map (\<lambda>(st', c'). ms (StarLazy a) st' c') (ms a st c))"
| "ms (Grp n a) st c =
     map (\<lambda>(st', c'). (st', c'(n := Some (take (fst st' - fst st) (snd st))))) (ms a st c)"
  by pat_completeness auto
termination
  by (relation "inv_image (less_than <*lex*> less_than)
                  (\<lambda>(r, st, c). (rx_rank r, length (snd st)))") auto

text \<open>The equations of the two stars mention themselves, so none of the equations
  of \<open>ms\<close> is a default rewrite rule; each is named where it is used.\<close>

declare ms.simps [simp del]

definition no_caps :: caps where
  "no_caps = (\<lambda>n. None)"

text \<open>A literal run of characters.\<close>

fun lit :: "string \<Rightarrow> rx" where
  "lit [] = Eps"
| "lit [x] = Chr x"
| "lit (x # y # ys) = Seq (Chr x) (lit (y # ys))"

fun seqs :: "rx list \<Rightarrow> rx" where
  "seqs [] = Eps"
| "seqs [r] = r"
| "seqs (r # q # rs) = Seq r (seqs (q # rs))"

text \<open>
  The result of \<open>RegExp.prototype.exec\<close> for a pattern without flags: the
  start index, the matched text and the captures of the leftmost start index
  at which the pattern matches, or \<open>None\<close> for \<open>null\<close>.
\<close>

record match =
  index :: nat
  matched :: string
  groups :: caps

fun exec_from :: "rx \<Rightarrow> mstate \<Rightarrow> match option" where
  "exec_from r (i, s) =
     (case ms r (i, s) no_caps of
        ((j, t), c) # _ \<Rightarrow> Some \<lparr>index = i, matched = take (j - i) s, groups = c\<rparr>
      | [] \<Rightarrow> (case s of [] \<Rightarrow> None | x # xs \<Rightarrow> exec_from r (Suc i, xs)))"

declare exec_from.simps [simp del]

definition rx_match :: "rx \<Rightarrow> string \<Rightarrow> match option" where
  "rx_match r s = exec_from r (0, s)"

text \<open>\<open>s.replace(r, rep)\<close> for a pattern without flags and a replacement without \<open>$\<close>.\<close>

definition rx_replace :: "rx \<Rightarrow> string \<Rightarrow> string \<Rightarrow> string" where
  "rx_replace r rep s =
     (case rx_match r s of
        None \<Rightarrow> s
      | Some m \<Rightarrow> take (index m) s @ rep @ drop (index m + length (matched m)) s)"

text \<open>
  \<open>m[k].trim()\<close> on a match array: a group that did not take part in the match
  is \<open>undefined\<close>, and calling \<open>trim\<close> on it throws.
\<close>

definition group_trim :: "match \<Rightarrow> nat \<Rightarrow> error + string" where
  "group_trim m k = (case groups m k of None \<Rightarrow> Inl TypeError | Some t \<Rightarrow> Inr (trim t))"

lemma one_char_mono: "(st', c') \<in> set (one_char P st c) \<Longrightarrow> fst st \<le> fst st'"
  by (cases "(P, st, c)" rule: one_char.cases) (auto split: if_splits)

lemma in_ms_Seq: "x \<in> set (ms (Seq a b) st c) \<longleftrightarrow>
    (\<exists>st1 c1. (st1, c1) \<in> set (ms a st c) \<and> x \<in> set (ms b st1 c1))"
  by (subst ms.simps(7)) auto

lemma in_ms_Star: "x \<in> set (ms (Star a) st c) \<longleftrightarrow> x = (st, c) \<or>
    (\<exists>st1 c1. (st1, c1) \<in> set (ms a st c) \<and> length (snd st1) < length (snd st) \<and>
       x \<in> set (ms (Star a) st1 c1))"
  by (subst ms.simps(9)) (auto split: if_splits)

lemma in_ms_StarLazy: "x \<in> set (ms (StarLazy a) st c) \<longleftrightarrow> x = (st, c) \<or>
    (\<exists>st1 c1. (st1, c1) \<in> set (ms a st c) \<and> length (snd st1) < length (snd st) \<and>
       x \<in> set (ms (StarLazy a) st1 c1))"
  by (subst ms.simps(10)) (auto split: if_splits)

lemma in_ms_PlusLazy: "x \<in> set (ms (PlusLazy a) st c) \<longleftrightarrow>
    (\<exists>st1 c1. (st1, c1) \<in> set (ms a st c) \<and> x \<in> set (ms (StarLazy a) st1 c1))"
  by (subst ms.simps(11)) auto

lemma ms_mono: "(st', c') \<in> set (ms r st c) \<Longrightarrow> fst st \<le> fst st'"
proof (induction r st c arbitrary: st' c' rule: ms.induct)
  case (7 a b st c)
  from "7.prems" obtain st1 c1 where m: "(st1, c1) \<in> set (ms a st c)" "(st', c') \<in> set (ms b st1 c1)"
    unfolding in_ms_Seq by blast
  from "7.IH"(1)[OF m(1)] "7.IH"(2)[OF m(1) refl m(2)] show ?case by simp
next
  case (8 a b st c)
  from "8.prems" have "(st', c') \<in> set (ms a st c) \<or> (st', c') \<in> set (ms b st c)" by (simp add: ms.simps(8))
  with "8.IH" show ?case by blast
next
  case (9 a st c)
  from "9.prems" consider "(st', c') = (st, c)"
    | st1 c1 where "(st1, c1) \<in> set (ms a st c)" "length (snd st1) < length (snd st)"
        "(st', c') \<in> set (ms (Star a) st1 c1)"
    by (subst (asm) in_ms_Star) blast
  then show ?case
  proof cases
    case 1 then show ?thesis by simp
  next
    case 2
    from "9.IH"(1)[OF 2(1)] "9.IH"(2)[OF 2(1) refl 2(2) 2(3)] show ?thesis by simp
  qed
next
  case (10 a st c)
  from "10.prems" consider "(st', c') = (st, c)"
    | st1 c1 where "(st1, c1) \<in> set (ms a st c)" "length (snd st1) < length (snd st)"
        "(st', c') \<in> set (ms (StarLazy a) st1 c1)"
    by (subst (asm) in_ms_StarLazy) blast
  then show ?case
  proof cases
    case 1 then show ?thesis by simp
  next
    case 2
    from "10.IH"(1)[OF 2(1)] "10.IH"(2)[OF 2(1) refl 2(2) 2(3)] show ?thesis by simp
  qed
next
  case (11 a st c)
  from "11.prems" obtain st1 c1 where m: "(st1, c1) \<in> set (ms a st c)"
      "(st', c') \<in> set (ms (StarLazy a) st1 c1)"
    unfolding in_ms_PlusLazy by blast
  from "11.IH"(1)[OF m(1)] "11.IH"(2)[OF m(1) refl m(2)] show ?case by simp
next
  case (12 n a st c)
  from "12.prems" obtain c1 where "(st', c1) \<in> set (ms a st c)" by (auto simp: ms.simps(12))
  with "12.IH" show ?case by blast
next
  case (6 st c) then show ?case by (simp add: ms.simps(6) split: if_splits)
qed (simp_all add: one_char_mono ms.simps(1-5))

lemma ms_head_mono: "ms r (q, s) c = ((e, t), c') # rest \<Longrightarrow> q \<le> e"
  using ms_mono[of "(e, t)" c' r "(q, s)" c] by simp

text \<open>
  \<open>S.split(r)\<close> with a pattern: the loop of the language definition over the
  indices \<open>p\<close> (start of the current piece) and \<open>q\<close> (where a match is tried);
  every split point contributes the piece before it and the \<open>n\<close> captures of
  the match.
\<close>

function split_loop :: "rx \<Rightarrow> nat \<Rightarrow> string \<Rightarrow> nat \<Rightarrow> nat \<Rightarrow> string option list" where
  "split_loop r n S p q =
     (if q < length S then
        (case ms r (q, drop q S) no_caps of
           [] \<Rightarrow> split_loop r n S p (Suc q)
         | ((e', t), c) # _ \<Rightarrow>
             (let e = min e' (length S) in
              if e = p then split_loop r n S p (Suc q)
              else Some (take (q - p) (drop p S)) # map c [1..<Suc n] @ split_loop r n S e e))
      else [Some (drop p S)])"
  by pat_completeness auto
termination
proof (relation "inv_image (less_than <*lex*> less_than)
                  (\<lambda>(r, n, S, p, q). (length S - q, if p = q then 0 else Suc 0))", goal_cases)
  case 1 show ?case by auto
next
  case (2 r n S p q) then show ?case by auto
next
  case (3 r n S p q x xs y e' t c e) then show ?case by auto
next
  case 4 then show ?case by (auto dest!: ms_head_mono)
qed

declare split_loop.simps [simp del]

definition rx_split :: "rx \<Rightarrow> nat \<Rightarrow> string \<Rightarrow> string option list" where
  "rx_split r n S =
     (if S = [] then (case ms r (0, []) no_caps of [] \<Rightarrow> [Some []] | z # _ \<Rightarrow> [])
      else split_loop r n S 0 0)"

section \<open>The inline tokenizer \<open>parseLine\<close>\<close>

text \<open>
  The pattern of \<open>parseLine\<close>,
  \<^verbatim>\<open>/(\*\*(?:[^*]+?|\*[^*])*?\*\*|`(?:[^`]+?)`|\[(?:[^\]]+?)\]\((?:[^)]+?)\))/g\<close>,
  and the pattern \<^verbatim>\<open>/\[(.*?)\]\((.*?)\)/\<close> that takes a link apart.
\<close>

definition regex :: rx where
  "regex = Grp 1
     (Alt (seqs [lit ''**'',
                 StarLazy (Alt (PlusLazy (NotChr CHR ''*''))
                               (Seq (Chr CHR ''*'') (NotChr CHR ''*''))),
                 lit ''**''])
     (Alt (seqs [Chr CHR 0x60, PlusLazy (NotChr CHR 0x60), Chr CHR 0x60])
          (seqs [Chr CHR ''['', PlusLazy (NotChr CHR '']''), lit '']('',
                 PlusLazy (NotChr CHR '')''), Chr CHR '')''])))"

definition linkRegex :: rx where
  "linkRegex = seqs [Chr CHR ''['', Grp 1 (StarLazy Dot), lit '']('', Grp 2 (StarLazy Dot),
                     Chr CHR '')'']"

text \<open>
  A span is one child of the fragment that \<open>parseLine\<close> returns: \<open>Bold\<close> is the
  \<open>strong\<close> element, \<open>Code\<close> the \<open>code\<close> element, \<open>Link label url\<close> the
  \<open>a\<close> element with its text and its \<open>href\<close>, \<open>Text\<close> the \<open>span\<close> element.
  Keys and class names are left out. A part for which the callback returns
  \<open>null\<close> is \<open>None\<close>; the fragment shows the others. A group of the link
  pattern that is \<open>undefined\<close> shows as the empty string.
\<close>

datatype span = Text string | Bold string | Code string | Link string string

definition group_text :: "match \<Rightarrow> nat \<Rightarrow> string" where
  "group_text m k = (case groups m k of None \<Rightarrow> [] | Some t \<Rightarrow> t)"

definition render_part :: "string option \<Rightarrow> span option" where
  "render_part part =
     (case part of
        None \<Rightarrow> None
      | Some part \<Rightarrow>
          if part = [] then None
          else if startsWith ''**'' part \<and> endsWith ''**'' part then Some (Bold (slice 2 (- 2) part))
          else if startsWith [CHR 0x60] part \<and> endsWith [CHR 0x60] part
               then Some (Code (slice 1 (- 1) part))
          else if startsWith ''['' part \<and> endsWith '')'' part then
            (case rx_match linkRegex part of
               Some linkMatch \<Rightarrow> Some (Link (group_text linkMatch 1) (group_text linkMatch 2))
             | None \<Rightarrow> Some (Text part))
          else Some (Text part))"

definition parts :: "string \<Rightarrow> string option list" where
  "parts line = rx_split regex 1 line"

definition parseLine :: "string \<Rightarrow> span list" where
  "parseLine line = List.map_filter render_part (parts line)"

section \<open>The summary parser \<open>SummaryRenderer\<close>\<close>

text \<open>
  A block is one entry of \<open>elements\<close>: \<open>Heading\<close> is the \<open>h3\<close> element,
  \<open>Paragraph\<close> the \<open>p\<close> element, \<open>ListBlock\<close> the \<open>ul\<close> element with one
  entry for each \<open>li\<close>. The state of the loop is the pair of \<open>elements\<close> and
  \<open>listItems\<close>.
\<close>

datatype block = Heading "span list" | Paragraph "span list" | ListBlock "span list list"

type_synonym summary_state = "block list \<times> span list list"

fun flushList :: "summary_state \<Rightarrow> summary_state" where
  "flushList (elements, listItems) =
     (if length listItems > 0 then (elements @ [ListBlock listItems], [])
      else (elements, listItems))"

definition line_step :: "summary_state \<Rightarrow> string \<Rightarrow> summary_state" where
  "line_step st line =
     (let trimmedLine = trim line in
      if startsWith ''### '' trimmedLine then
        (case flushList st of (elements, listItems) \<Rightarrow>
           (elements @ [Heading (parseLine (replace_str ''### '' [] trimmedLine))], listItems))
      else if startsWith ''* '' trimmedLine then
        (case st of (elements, listItems) \<Rightarrow>
           (elements, listItems @ [parseLine (substring 2 trimmedLine)]))
      else if trimmedLine \<noteq> [] then
        (case flushList st of (elements, listItems) \<Rightarrow>
           (elements @ [Paragraph (parseLine trimmedLine)], listItems))
      else flushList st)"

definition render_lines :: "string list \<Rightarrow> block list" where
  "render_lines lines = fst (flushList (foldl line_step ([], []) lines))"

definition SummaryRenderer :: "string \<Rightarrow> block list" where
  "SummaryRenderer text = render_lines (split_chr CHR 0x0A text)"

section \<open>The resume parser \<open>parseResumeMarkdown\<close>\<close>

text \<open>
  The patterns of the post-processing: \<^verbatim>\<open>/^\*\*(.*)\*\* \| (.*)/\<close>,
  \<^verbatim>\<open>/^\*(.*)\*/\<close>, \<^verbatim>\<open>/^\* (.*)/\<close>, \<^verbatim>\<open>/^\* \*\*(.*):\*\* (.*)/\<close>,
  \<^verbatim>\<open>/^\* /\<close>, and the separator \<^verbatim>\<open>/\s*\|\s*/\<close> of the contact line.
\<close>

definition titleCompanyRegex :: rx where
  "titleCompanyRegex = seqs [Bol, lit ''**'', Grp 1 (Star Dot), lit ''** | '', Grp 2 (Star Dot)]"

definition dateRegex :: rx where
  "dateRegex = seqs [Bol, Chr CHR ''*'', Grp 1 (Star Dot), Chr CHR ''*'']"

definition bulletRegex :: rx where
  "bulletRegex = seqs [Bol, lit ''* '', Grp 1 (Star Dot)]"

definition skillRegex :: rx where
  "skillRegex = seqs [Bol, lit ''* **'', Grp 1 (Star Dot), lit '':** '', Grp 2 (Star Dot)]"

definition bulletMarkerRegex :: rx where
  "bulletMarkerRegex = seqs [Bol, lit ''* '']"

definition contactSeparator :: rx where
  "contactSeparator = seqs [Star Space, Chr CHR ''|'', Star Space]"

record job =
  job_title :: string
  company :: string
  date :: string
  description :: "string list"

record skill =
  category :: "string option"
  items :: string

text \<open>
  A section during the walk has \<open>content\<close> a list of lines and neither \<open>jobs\<close>
  nor \<open>skills\<close>; the post-processing copies it and adds \<open>jobs\<close>, adds
  \<open>skills\<close>, or replaces \<open>content\<close> by the joined text.
\<close>

datatype content_val = ContentLines "string list" | ContentText string

record 'c resume_section =
  title :: string
  content :: 'c
  jobs :: "job list option"
  skills :: "skill list option"

record header =
  name :: string
  contact :: "string list"

record document =
  header :: header
  sections :: "content_val resume_section list"

text \<open>
  The walk over the lines after the header. \<open>currentSection\<close> refers to the
  object pushed last on \<open>sections\<close>, so a line pushed on its \<open>content\<close> shows
  in \<open>sections\<close>: the reference is the index of that object.
\<close>

type_synonym walk_state = "string list resume_section list \<times> nat option"

definition walk_step :: "walk_state \<Rightarrow> string \<Rightarrow> walk_state" where
  "walk_step st line =
     (case st of (sections', currentSection) \<Rightarrow>
        if startsWith ''## '' line then
          (sections' @ [\<lparr>title = trim (replace_str ''## '' [] line), content = [],
                         jobs = None, skills = None\<rparr>],
           Some (length sections'))
        else (case currentSection of
                Some k \<Rightarrow>
                  (sections'[k := (sections' ! k)\<lparr>content := content (sections' ! k) @ [line]\<rparr>],
                   currentSection)
              | None \<Rightarrow> (sections', currentSection)))"

text \<open>One line of a Work Experience section; the state is \<open>jobs\<close> and \<open>currentJob\<close>.\<close>

type_synonym jobs_state = "job list \<times> job option"

definition push_job :: "jobs_state \<Rightarrow> job list" where
  "push_job st = (case st of (jobs', currentJob) \<Rightarrow>
     (case currentJob of Some j \<Rightarrow> jobs' @ [j] | None \<Rightarrow> jobs'))"

definition job_step :: "jobs_state \<Rightarrow> string \<Rightarrow> error + jobs_state" where
  "job_step st line =
     (let titleCompanyMatch = rx_match titleCompanyRegex line;
          dateMatch = rx_match dateRegex line;
          bulletMatch = rx_match bulletRegex line
      in case st of (jobs', currentJob) \<Rightarrow>
        (case titleCompanyMatch of
           Some m \<Rightarrow>
             (case group_trim m 1 of
                Inl e \<Rightarrow> Inl e
              | Inr t \<Rightarrow>
                  (case group_trim m 2 of
                     Inl e \<Rightarrow> Inl e
                   | Inr c \<Rightarrow>
                       Inr (push_job st,
                            Some \<lparr>job_title = t, company = c, date = [], description = []\<rparr>)))
         | None \<Rightarrow>
             (case (currentJob, dateMatch) of
                (Some j, Some m) \<Rightarrow>
                  (case group_trim m 1 of
                     Inl e \<Rightarrow> Inl e
                   | Inr d \<Rightarrow> Inr (jobs', Some (j\<lparr>date := d\<rparr>)))
              | _ \<Rightarrow>
                  (case (currentJob, bulletMatch) of
                     (Some j, Some m) \<Rightarrow>
                       (case group_trim m 1 of
                          Inl e \<Rightarrow> Inl e
                        | Inr b \<Rightarrow> Inr (jobs', Some (j\<lparr>description := description j @ [b]\<rparr>)))
                   | _ \<Rightarrow> Inr st))))"

fun job_loop :: "jobs_state \<Rightarrow> string list \<Rightarrow> error + jobs_state" where
  "job_loop st [] = Inr st"
| "job_loop st (line # lines) =
     (case job_step st line of Inl e \<Rightarrow> Inl e | Inr st' \<Rightarrow> job_loop st' lines)"

definition skill_line :: "string \<Rightarrow> error + skill" where
  "skill_line line =
     (case rx_match skillRegex line of
        Some skillMatch \<Rightarrow>
          (case group_trim skillMatch 1 of
             Inl e \<Rightarrow> Inl e
           | Inr c \<Rightarrow>
               (case group_trim skillMatch 2 of
                  Inl e \<Rightarrow> Inl e
                | Inr i \<Rightarrow> Inr \<lparr>category = Some c, items = i\<rparr>))
      | None \<Rightarrow> Inr \<lparr>category = None, items = trim (rx_replace bulletMarkerRegex [] line)\<rparr>)"

text \<open>\<open>xs.map(f)\<close> for a callback that may throw: the first exception ends the map.\<close>

fun map_err :: "('a \<Rightarrow> error + 'b) \<Rightarrow> 'a list \<Rightarrow> error + 'b list" where
  "map_err f [] = Inr []"
| "map_err f (x # xs) =
     (case f x of
        Inl e \<Rightarrow> Inl e
      | Inr y \<Rightarrow> (case map_err f xs of Inl e \<Rightarrow> Inl e | Inr ys \<Rightarrow> Inr (y # ys)))"

definition process_section :: "string list resume_section \<Rightarrow> error + content_val resume_section" where
  "process_section sec =
     (if title sec = ''Work Experience'' then
        (case job_loop ([], None) (content sec) of
           Inl e \<Rightarrow> Inl e
         | Inr st \<Rightarrow>
             Inr \<lparr>title = title sec, content = ContentLines (content sec),
                  jobs = Some (push_job st), skills = skills sec\<rparr>)
      else if title sec = ''Skills'' then
        (case map_err skill_line (content sec) of
           Inl e \<Rightarrow> Inl e
         | Inr skills' \<Rightarrow>
             Inr \<lparr>title = title sec, content = ContentLines (content sec),
                  jobs = jobs sec, skills = Some skills'\<rparr>)
      else Inr \<lparr>title = title sec, content = ContentText (join [CHR 0x0A] (content sec)),
                jobs = jobs sec, skills = skills sec\<rparr>)"

text \<open>
  The lines that \<open>parseResumeMarkdown\<close> works on: the filter tests the trimmed
  line and keeps the line itself. In the header, \<open>shift\<close> gives \<open>undefined\<close>
  on an empty array, where \<open>?.\<close> and \<open>||\<close> give the empty name and no
  contact field; an empty name is the empty string either way.
\<close>

definition resume_lines :: "string \<Rightarrow> string list" where
  "resume_lines text = filter (\<lambda>line. trim line \<noteq> []) (split_chr CHR 0x0A (trim text))"

definition parseResumeMarkdown :: "js_value \<Rightarrow> error + document option" where
  "parseResumeMarkdown v =
     (if \<not> truthy v then Inr None
      else if \<not> is_string v then Inr None
      else case v of
        JString text \<Rightarrow>
            (let lines = resume_lines text in
             if length lines < 2 then Inr None
             else
               (case shift lines of (first, lines1) \<Rightarrow>
                (case shift lines1 of (second, lines2) \<Rightarrow>
                 (let name' = (case first of
                                None \<Rightarrow> []
                              | Some l \<Rightarrow> trim (replace_str ''# '' [] l));
                      contact' = (case second of
                                   None \<Rightarrow> []
                                 | Some l \<Rightarrow> map (\<lambda>f. case f of None \<Rightarrow> [] | Some t \<Rightarrow> t)
                                              (rx_split contactSeparator 0 (trim l)));
                      header' = \<lparr>name = name', contact = contact'\<rparr>;
                      sections' = fst (foldl walk_step ([], None) lines2)
                  in case map_err process_section sections' of
                       Inl e \<Rightarrow> Inl e
                     | Inr processedSections \<Rightarrow>
                         Inr (Some \<lparr>header = header', sections = processedSections\<rparr>)))))
      | _ \<Rightarrow> Inr None)"

section \<open>Notions used in the statements\<close>

text \<open>
  A line of the summary is a bullet line when the loop of \<open>SummaryRenderer\<close>
  takes its second branch; \<open>bullet_item\<close> is the list item it pushes, and
  \<open>line_blocks\<close> the blocks that any other line pushes after the flush.
\<close>

definition bullet_line :: "string \<Rightarrow> bool" where
  "bullet_line line = (\<not> startsWith ''### '' (trim line) \<and> startsWith ''* '' (trim line))"

definition bullet_item :: "string \<Rightarrow> span list" where
  "bullet_item line = parseLine (substring 2 (trim line))"

definition line_blocks :: "string \<Rightarrow> block list" where
  "line_blocks line =
     (if startsWith ''### '' (trim line)
      then [Heading (parseLine (replace_str ''### '' [] (trim line)))]
      else if trim line \<noteq> [] then [Paragraph (parseLine (trim line))] else [])"

text \<open>
  The non-blank lines of a text as it stands, without the trimming of the text
  that \<open>resume_lines\<close> does first, and the inputs for which the
  specification says that the parser returns \<open>null\<close>.
\<close>

definition nonblank_lines :: "string \<Rightarrow> string list" where
  "nonblank_lines text = filter (\<lambda>line. trim line \<noteq> []) (split_chr CHR 0x0A text)"

definition unparseable :: "js_value \<Rightarrow> bool" where
  "unparseable v =
     (case v of JString text \<Rightarrow> text = [] \<or> length (nonblank_lines text) < 2 | _ \<Rightarrow> True)"

text \<open>
  The groups that take part in every match of a pattern; \<open>dotc\<close> is the class
  of \<open>.\<close>; \<open>matches\<close> says that \<open>match\<close> does not return \<open>null\<close>;
  \<open>bullet_text\<close> is \<open>bulletMatch[1]\<close>, the text of a line of the form
  \<^verbatim>\<open>* text\<close>; \<open>before_last_asterisk\<close> is the part of a text before its last
  asterisk.
\<close>

fun must_groups :: "rx \<Rightarrow> nat set" where
  "must_groups (Seq a b) = must_groups a \<union> must_groups b"
| "must_groups (Alt a b) = must_groups a \<inter> must_groups b"
| "must_groups (PlusLazy a) = must_groups a"
| "must_groups (Grp n a) = insert n (must_groups a)"
| "must_groups _ = {}"

definition dotc :: "char \<Rightarrow> bool" where
  "dotc x = (\<not> isLineTerminator x)"

definition matches :: "rx \<Rightarrow> string \<Rightarrow> bool" where
  "matches r s = (case rx_match r s of None \<Rightarrow> False | Some m \<Rightarrow> True)"

definition bullet_text :: "string \<Rightarrow> string option" where
  "bullet_text line = (case rx_match bulletRegex line of None \<Rightarrow> None | Some m \<Rightarrow> groups m 1)"

definition before_last_asterisk :: "string \<Rightarrow> string" where
  "before_last_asterisk t = rev (tl (dropWhile (\<lambda>x. x \<noteq> CHR ''*'') (rev t)))"

text \<open>
  The sections that the walk over the lines builds, told from the lines: every
  line that starts with \<^verbatim>\<open>## \<close> gives a section whose content is the run of
  lines after it up to the next such line. \<open>includes_str\<close> is
  \<open>String.prototype.includes\<close>.
\<close>

fun raw_sections :: "string list \<Rightarrow> string list resume_section list" where
  "raw_sections [] = []"
| "raw_sections (l # ls) =
     (if startsWith ''## '' l
      then \<lparr>title = trim (drop 3 l), content = takeWhile (\<lambda>x. \<not> startsWith ''## '' x) ls,
            jobs = None, skills = None\<rparr> # raw_sections ls
      else raw_sections ls)"

fun includes_str :: "string \<Rightarrow> string \<Rightarrow> bool" where
  "includes_str p [] = (p = [])"
| "includes_str p (x # xs) = (startsWith p (x # xs) \<or> includes_str p xs)"

text \<open>
  For the contact line: \<open>sep_at s\<close> says that a match of the separator
  \<^verbatim>\<open>/\s*\|\s*/\<close> starts at the head of \<open>s\<close>; \<open>no_lead\<close> and \<open>no_trail\<close> say
  that a string has no white space at its start and at its end.
  \<open>strip_marker\<close> follows the words of the specification for the name: the
  line with only a leading \<^verbatim>\<open># \<close> stripped, and a line without it as it
  stands.
\<close>

definition sep_at :: "string \<Rightarrow> bool" where
  "sep_at s = (case dropWhile isWhiteSpace s of [] \<Rightarrow> False | x # b \<Rightarrow> x = CHR ''|'')"

definition no_lead :: "string \<Rightarrow> bool" where
  "no_lead s = (s = [] \<or> \<not> isWhiteSpace (hd s))"

definition no_trail :: "string \<Rightarrow> bool" where
  "no_trail s = (s = [] \<or> \<not> isWhiteSpace (last s))"

definition strip_marker :: "string \<Rightarrow> string" where
  "strip_marker l = (if startsWith ''# '' l then drop 2 l else l)"

section \<open>Worked examples\<close>

text \<open>
  Claim C2. \<open>parseLine\<close> on the line \<^verbatim>\<open>**a** and `b` and [c](d)\<close> gives exactly
  the spans Bold a, Text " and ", Code b, Text " and ", Link c d, in this order;
  the two empty pieces that \<open>split\<close> returns at both ends of the line are not
  shown.
\<close>

theorem parseLine_example:
  "parseLine ''**a** and `b` and [c](d)'' =
     [Bold ''a'', Text '' and '', Code ''b'', Text '' and '', Link ''c'' ''d''] \<and>
   parts ''**a** and `b` and [c](d)'' =
     [Some [], Some ''**a**'', Some '' and '', Some ''`b`'', Some '' and '', Some ''[c](d)'',
      Some []]"
  by code_simp

text \<open>
  Claim C3. A Work Experience section with the content lines
  \<^verbatim>\<open>**Engineer** | Acme\<close>, \<^verbatim>\<open>*2020 - Present*\<close>, \<^verbatim>\<open>* Did X\<close>, \<^verbatim>\<open>* Did Y\<close> gives exactly
  one job with title Engineer, company Acme, date "2020 - Present" and the
  bullets Did X, Did Y in this order, both in the post-processing of the section
  and in the document parsed from a text with this section.
\<close>

theorem work_experience_example:
  "process_section
     \<lparr>title = ''Work Experience'',
      content = [''**Engineer** | Acme'', ''*2020 - Present*'', ''* Did X'', ''* Did Y''],
      jobs = None, skills = None\<rparr> =
   Inr \<lparr>title = ''Work Experience'',
        content = ContentLines
          [''**Engineer** | Acme'', ''*2020 - Present*'', ''* Did X'', ''* Did Y''],
        jobs = Some [\<lparr>job_title = ''Engineer'', company = ''Acme'', date = ''2020 - Present'',
                       description = [''Did X'', ''Did Y'']\<rparr>],
        skills = None\<rparr> \<and>
   parseResumeMarkdown (JString
     ''# Jane Doe\<newline>jane@x.com\<newline>## Work Experience\<newline>**Engineer** | Acme\<newline>*2020 - Present*\<newline>* Did X\<newline>* Did Y'') =
   Inr (Some
     \<lparr>header = \<lparr>name = ''Jane Doe'', contact = [''jane@x.com'']\<rparr>,
      sections =
        [\<lparr>title = ''Work Experience'',
          content = ContentLines
            [''**Engineer** | Acme'', ''*2020 - Present*'', ''* Did X'', ''* Did Y''],
          jobs = Some [\<lparr>job_title = ''Engineer'', company = ''Acme'',
                         date = ''2020 - Present'', description = [''Did X'', ''Did Y'']\<rparr>],
          skills = None\<rparr>]\<rparr>)"
  by code_simp

text \<open>
  Claim C4. The text
  \<^verbatim>\<open># Jane Doe\njane@x.com | 555-1111 | site.com\n## Skills\n* **Tools:** Git, Docker\n* Extra skill\<close>
  parses to the header with name Jane Doe and the three contact fields, and to
  exactly one section, titled Skills, with the two skill lines: category Tools
  with items "Git, Docker", then no category with items "Extra skill".
\<close>

theorem skills_example:
  "parseResumeMarkdown (JString
     ''# Jane Doe\<newline>jane@x.com | 555-1111 | site.com\<newline>## Skills\<newline>* **Tools:** Git, Docker\<newline>* Extra skill'') =
   Inr (Some
     \<lparr>header = \<lparr>name = ''Jane Doe'',
                 contact = [''jane@x.com'', ''555-1111'', ''site.com'']\<rparr>,
      sections =
        [\<lparr>title = ''Skills'',
          content = ContentLines [''* **Tools:** Git, Docker'', ''* Extra skill''],
          jobs = None,
          skills = Some [\<lparr>category = Some ''Tools'', items = ''Git, Docker''\<rparr>,
                         \<lparr>category = None, items = ''Extra skill''\<rparr>]\<rparr>]\<rparr>)"
  by code_simp

section \<open>The blocks of the summary\<close>

lemma flushList_no_empty:
  "ListBlock [] \<notin> set (fst st) \<Longrightarrow> ListBlock [] \<notin> set (fst (flushList st))"
  by (cases st) auto

lemma line_step_no_empty:
  "ListBlock [] \<notin> set (fst st) \<Longrightarrow> ListBlock [] \<notin> set (fst (line_step st line))"
proof -
  assume a: "ListBlock [] \<notin> set (fst st)"
  obtain els its where f: "flushList st = (els, its)" by (cases "flushList st")
  with flushList_no_empty[OF a] have "ListBlock [] \<notin> set els" by simp
  with a f show ?thesis
    by (cases st) (simp add: line_step_def Let_def)
qed

lemma foldl_line_step_no_empty:
  "ListBlock [] \<notin> set (fst st) \<Longrightarrow> ListBlock [] \<notin> set (fst (foldl line_step st ls))"
  by (induction ls arbitrary: st) (simp_all add: line_step_no_empty)

text \<open>
  Claim C10. Whatever the text, no block of the summary is a list without items:
  \<open>flushList\<close> pushes the list only when \<open>listItems\<close> is not empty.
\<close>

theorem summary_no_empty_list: "ListBlock [] \<notin> set (SummaryRenderer text)"
  unfolding SummaryRenderer_def render_lines_def
  by (rule flushList_no_empty, rule foldl_line_step_no_empty) simp

lemma flushList_eq:
  "flushList (els, its) = (els @ (if its = [] then [] else [ListBlock its]), [])"
  by simp

lemma line_step_bullet:
  "bullet_line l \<Longrightarrow> line_step (els, its) l = (els, its @ [bullet_item l])"
  by (simp add: line_step_def bullet_line_def bullet_item_def Let_def)

lemma line_step_other:
  "\<not> bullet_line l \<Longrightarrow>
   line_step (els, its) l = (els @ (if its = [] then [] else [ListBlock its]) @ line_blocks l, [])"
  by (auto simp: line_step_def bullet_line_def line_blocks_def Let_def startsWith_def)

lemma line_step_prefix:
  "line_step (P @ Q, its) l = (P @ fst (line_step (Q, its) l), snd (line_step (Q, its) l))"
  by (cases "bullet_line l") (simp_all add: line_step_bullet line_step_other)

lemma foldl_line_step_prefix:
  "foldl line_step (P @ Q, its) ls =
     (P @ fst (foldl line_step (Q, its) ls), snd (foldl line_step (Q, its) ls))"
proof (induction ls arbitrary: Q its)
  case Nil
  show ?case by simp
next
  case (Cons l ls)
  obtain A B where s: "line_step (Q, its) l = (A, B)" by (cases "line_step (Q, its) l")
  have "line_step (P @ Q, its) l = (P @ A, B)"
    using line_step_prefix[of P Q its l] s by simp
  with s Cons.IH[of A B] show ?case by simp
qed

lemma foldl_line_step_bullets:
  "\<forall>l\<in>set bs. bullet_line l \<Longrightarrow>
   foldl line_step (els, its) bs = (els, its @ map bullet_item bs)"
  by (induction bs arbitrary: its) (simp_all add: line_step_bullet)

lemma foldl_line_step_closed:
  assumes "ls = [] \<or> \<not> bullet_line (last ls)"
  shows "snd (foldl line_step (els, []) ls) = []"
proof (cases "ls = []")
  case True
  then show ?thesis by simp
next
  case False
  then obtain ks l where ls: "ls = ks @ [l]" by (metis rev_exhaust)
  with assms have nb: "\<not> bullet_line l" by simp
  obtain A B where "foldl line_step (els, []) ks = (A, B)"
    by (cases "foldl line_step (els, []) ks")
  with ls nb show ?thesis by (simp add: line_step_other)
qed

lemma render_lines_closed:
  assumes "ls = [] \<or> \<not> bullet_line (last ls)"
  shows "foldl line_step ([], []) ls = (render_lines ls, [])"
proof -
  obtain A B where s: "foldl line_step ([], []) ls = (A, B)"
    by (cases "foldl line_step ([], []) ls")
  from foldl_line_step_closed[OF assms, of "[]"] s have "B = []" by simp
  with s show ?thesis by (simp add: render_lines_def)
qed

lemma render_lines_bullet_run:
  assumes "bs \<noteq> []" and "\<forall>l\<in>set bs. bullet_line l"
    and "pre = [] \<or> \<not> bullet_line (last pre)"
    and "post = [] \<or> \<not> bullet_line (hd post)"
  shows "render_lines (pre @ bs @ post) =
           render_lines pre @ ListBlock (map bullet_item bs) # render_lines post"
proof -
  let ?E = "render_lines pre"
  let ?I = "map bullet_item bs"
  have run: "foldl line_step ([], []) (pre @ bs) = (?E, ?I)"
    using render_lines_closed[OF assms(3)] foldl_line_step_bullets[OF assms(2), of ?E "[]"]
    by simp
  have I: "?I \<noteq> []" using assms(1) by simp
  show ?thesis
  proof (cases post)
    case Nil
    with run I show ?thesis by (simp add: render_lines_def)
  next
    case (Cons l post')
    with assms(4) have nb: "\<not> bullet_line l" by simp
    have a0: "foldl line_step ([], []) (pre @ bs @ post)
            = foldl line_step (?E @ ListBlock ?I # line_blocks l, []) post'"
      using run Cons nb I by (simp add: line_step_other)
    have a1: "foldl line_step (?E @ ListBlock ?I # line_blocks l, []) post'
            = (?E @ ListBlock ?I # fst (foldl line_step (line_blocks l, []) post'),
               snd (foldl line_step (line_blocks l, []) post'))"
      using foldl_line_step_prefix[of "?E @ [ListBlock ?I]" "line_blocks l" "[]" post'] by simp
    have a: "render_lines (pre @ bs @ post)
          = ?E @ ListBlock ?I # fst (flushList (foldl line_step (line_blocks l, []) post'))"
    proof -
      have "render_lines (pre @ bs @ post)
              = fst (flushList (foldl line_step ([], []) (pre @ bs @ post)))"
        by (simp only: render_lines_def)
      also have "\<dots> = fst (flushList
                (?E @ ListBlock ?I # fst (foldl line_step (line_blocks l, []) post'),
                 snd (foldl line_step (line_blocks l, []) post')))"
        by (simp only: a0 a1)
      also have "\<dots> = ?E @ ListBlock ?I #
                fst (flushList (foldl line_step (line_blocks l, []) post'))"
        by (cases "foldl line_step (line_blocks l, []) post'") simp
      finally show ?thesis .
    qed
    have "render_lines post = fst (flushList (foldl line_step (line_blocks l, []) post'))"
      using Cons nb by (simp add: render_lines_def line_step_other)
    with a show ?thesis by simp
  qed
qed

text \<open>
  Claim C5. The lists of the summary are maximal. A run \<open>bs\<close> of lines that
  start with the bullet marker after trimming, with no bullet line directly
  before it and none directly after it, gives exactly one list block, with one
  item for each line of the run, between the blocks of the lines before and
  the blocks of the lines after: any other line, blank or not, ends the list.
  In particular two runs of bullet lines with a blank line between them give
  two list blocks.
\<close>

theorem list_blocks_maximal:
  "(bs \<noteq> [] \<and> (\<forall>l\<in>set bs. bullet_line l) \<and>
    (pre = [] \<or> \<not> bullet_line (last pre)) \<and> (post = [] \<or> \<not> bullet_line (hd post)) \<longrightarrow>
    render_lines (pre @ bs @ post) =
      render_lines pre @ ListBlock (map bullet_item bs) # render_lines post) \<and>
   (bs \<noteq> [] \<and> (\<forall>l\<in>set bs. bullet_line l) \<and> trim blank = [] \<and>
    bs' \<noteq> [] \<and> (\<forall>l\<in>set bs'. bullet_line l) \<longrightarrow>
    render_lines (bs @ blank # bs') =
      [ListBlock (map bullet_item bs), ListBlock (map bullet_item bs')])"
proof (intro conjI impI)
  assume "bs \<noteq> [] \<and> (\<forall>l\<in>set bs. bullet_line l) \<and>
    (pre = [] \<or> \<not> bullet_line (last pre)) \<and> (post = [] \<or> \<not> bullet_line (hd post))"
  then show "render_lines (pre @ bs @ post) =
      render_lines pre @ ListBlock (map bullet_item bs) # render_lines post"
    using render_lines_bullet_run by blast
next
  assume a: "bs \<noteq> [] \<and> (\<forall>l\<in>set bs. bullet_line l) \<and> trim blank = [] \<and>
    bs' \<noteq> [] \<and> (\<forall>l\<in>set bs'. bullet_line l)"
  then have nb: "\<not> bullet_line blank" by (simp add: bullet_line_def startsWith_def)
  have "render_lines ([] @ bs @ (blank # bs')) =
          render_lines [] @ ListBlock (map bullet_item bs) # render_lines (blank # bs')"
    using a nb by (intro render_lines_bullet_run) simp_all
  moreover have "render_lines ([blank] @ bs' @ []) =
          render_lines [blank] @ ListBlock (map bullet_item bs') # render_lines []"
    using a nb by (intro render_lines_bullet_run) simp_all
  moreover have "render_lines [blank] = []" "render_lines [] = []"
    using a by (simp_all add: render_lines_def line_step_def startsWith_def)
  ultimately show "render_lines (bs @ blank # bs') =
      [ListBlock (map bullet_item bs), ListBlock (map bullet_item bs')]"
    by simp
qed

theorem list_blocks_maximal_witness:
  "bullet_line ''* a'' \<and> bullet_line '' * b'' \<and> \<not> bullet_line ''### h'' \<and>
   \<not> bullet_line ''p'' \<and>
   render_lines ([''### h''] @ [''* a'', '' * b''] @ [''p'', ''* d'']) =
     [Heading [Text ''h''], ListBlock [[Text ''a''], [Text ''b'']],
      Paragraph [Text ''p''], ListBlock [[Text ''d'']]] \<and>
   trim ''  '' = [] \<and> bullet_line ''* c'' \<and>
   SummaryRenderer ''* a\<newline> * b\<newline>  \<newline>* c'' =
     [ListBlock [[Text ''a''], [Text ''b'']], ListBlock [[Text ''c'']]]"
proof -
  have b: "bullet_line ''* a''" "bullet_line '' * b''" "\<not> bullet_line ''### h''"
    "\<not> bullet_line ''p''" "trim ''  '' = []" "bullet_line ''* c''"
    by code_simp+
  have s: "split_chr CHR 0x0A ''* a\<newline> * b\<newline>  \<newline>* c'' = [''* a'', '' * b''] @ ''  '' # [''* c'']"
    by code_simp
  have e1: "render_lines [''### h''] = [Heading [Text ''h'']]" by code_simp
  have e2: "render_lines [''p'', ''* d''] = [Paragraph [Text ''p''], ListBlock [[Text ''d'']]]"
    by code_simp
  have e3: "map bullet_item [''* a'', '' * b''] = [[Text ''a''], [Text ''b'']]" by code_simp
  have e4: "map bullet_item [''* c''] = [[Text ''c'']]" by code_simp
  from list_blocks_maximal[of "[''* a'', '' * b'']" "[''### h'']" "[''p'', ''* d'']" "''  ''" "[''* c'']"]
    b
  have "render_lines ([''### h''] @ [''* a'', '' * b''] @ [''p'', ''* d'']) =
      render_lines [''### h''] @ ListBlock (map bullet_item [''* a'', '' * b'']) #
      render_lines [''p'', ''* d'']"
    and "render_lines ([''* a'', '' * b''] @ ''  '' # [''* c'']) =
      [ListBlock (map bullet_item [''* a'', '' * b'']), ListBlock (map bullet_item [''* c''])]"
    by simp_all
  with b show ?thesis
    unfolding SummaryRenderer_def s e1 e2 e3 e4 by simp
qed

section \<open>Lines and white space\<close>

lemma trim_Nil [simp]: "trim [] = []"
  by (simp add: trim_def)

lemma dropWhile_all_Nil:
  assumes "\<forall>x\<in>set (dropWhile P s). P x"
  shows "dropWhile P s = []"
proof (rule ccontr)
  assume n: "dropWhile P s \<noteq> []"
  then have "\<not> P (hd (dropWhile P s))" by (rule hd_dropWhile)
  moreover from n have "hd (dropWhile P s) \<in> set (dropWhile P s)" by (rule hd_in_set)
  ultimately show False using assms by blast
qed

lemma trim_empty_iff: "trim s = [] \<longleftrightarrow> (\<forall>c\<in>set s. isWhiteSpace c)"
proof
  assume "trim s = []"
  then have "\<forall>x\<in>set (dropWhile isWhiteSpace s). isWhiteSpace x"
    by (simp add: trim_def dropWhile_eq_Nil_conv)
  then have "dropWhile isWhiteSpace s = []" by (rule dropWhile_all_Nil)
  then show "\<forall>c\<in>set s. isWhiteSpace c" by (simp add: dropWhile_eq_Nil_conv)
next
  assume "\<forall>c\<in>set s. isWhiteSpace c"
  then show "trim s = []" by (auto simp: trim_def dest: set_dropWhileD)
qed

lemma trim_ws_Cons: "isWhiteSpace x \<Longrightarrow> trim (x # s) = trim s"
  by (simp add: trim_def)

lemma trim_ws_snoc:
  assumes x: "isWhiteSpace x"
  shows "trim (s @ [x]) = trim s"
proof (cases "\<forall>c\<in>set s. isWhiteSpace c")
  case True
  then have "trim s = []" "trim (s @ [x]) = []" using x by (simp_all add: trim_empty_iff)
  then show ?thesis by simp
next
  case False
  then obtain y where "y \<in> set s" "\<not> isWhiteSpace y" by blast
  then have "dropWhile isWhiteSpace (s @ [x]) = dropWhile isWhiteSpace s @ [x]"
    by (rule dropWhile_append1)
  with x show ?thesis by (simp add: trim_def)
qed

lemma split_chr_not_Nil [simp]: "split_chr c s \<noteq> []"
  by (induction s) (auto split: list.splits)

lemma split_chr_snoc_sep: "split_chr c (s @ [c]) = split_chr c s @ [[]]"
proof (induction s)
  case Nil
  show ?case by simp
next
  case (Cons y s)
  obtain l ls where sp: "split_chr c s = l # ls" by (cases "split_chr c s") simp_all
  show ?case by (simp add: Cons.IH sp)
qed

lemma split_chr_snoc_other:
  "x \<noteq> c \<Longrightarrow> split_chr c (s @ [x]) = butlast (split_chr c s) @ [last (split_chr c s) @ [x]]"
proof (induction s)
  case Nil
  then show ?case by simp
next
  case (Cons y s)
  obtain l ls where sp: "split_chr c s = l # ls" by (cases "split_chr c s") simp_all
  have "split_chr c (s @ [x]) =
          (if ls = [] then [l @ [x]] else l # butlast ls @ [last ls @ [x]])"
    by (simp add: Cons.IH[OF Cons.prems] sp)
  then show ?case by (simp add: sp)
qed

lemma trimmed_lines_ws_Cons:
  assumes "isWhiteSpace x"
  shows "map trim (nonblank_lines (x # s)) = map trim (nonblank_lines s)"
proof (cases "x = CHR 0x0A")
  case True
  then show ?thesis by (simp add: nonblank_lines_def)
next
  case False
  obtain l ls where sp: "split_chr CHR 0x0A s = l # ls"
    by (cases "split_chr CHR 0x0A s") simp_all
  with False assms show ?thesis
    by (simp add: nonblank_lines_def trim_ws_Cons)
qed

lemma trimmed_lines_ws_snoc:
  assumes "isWhiteSpace x"
  shows "map trim (nonblank_lines (s @ [x])) = map trim (nonblank_lines s)"
proof (cases "x = CHR 0x0A")
  case True
  then show ?thesis by (simp add: nonblank_lines_def split_chr_snoc_sep)
next
  case False
  have "split_chr CHR 0x0A s = butlast (split_chr CHR 0x0A s) @ [last (split_chr CHR 0x0A s)]"
    by simp
  then obtain ks l where sp: "split_chr CHR 0x0A s = ks @ [l]" by metis
  with False assms show ?thesis
    by (simp add: nonblank_lines_def split_chr_snoc_other trim_ws_snoc trim_empty_iff)
qed

lemma trimmed_lines_dropWhile:
  "map trim (nonblank_lines (dropWhile isWhiteSpace s)) = map trim (nonblank_lines s)"
  by (induction s) (simp_all add: trimmed_lines_ws_Cons)

lemma trimmed_lines_dropWhile_rev:
  "map trim (nonblank_lines (rev (dropWhile isWhiteSpace (rev s)))) = map trim (nonblank_lines s)"
  by (induction s rule: rev_induct) (simp_all add: trimmed_lines_ws_snoc)

lemma trimmed_resume_lines: "map trim (resume_lines text) = map trim (nonblank_lines text)"
proof -
  have "resume_lines text =
          nonblank_lines (rev (dropWhile isWhiteSpace (rev (dropWhile isWhiteSpace text))))"
    by (simp add: resume_lines_def nonblank_lines_def trim_def)
  then show ?thesis
    by (simp only: trimmed_lines_dropWhile_rev trimmed_lines_dropWhile)
qed

lemma length_resume_lines: "length (resume_lines text) = length (nonblank_lines text)"
  using arg_cong[OF trimmed_resume_lines, of length "text"] by simp

section \<open>The groups that the post-processing reads\<close>

lemma in_ms_Alt: "x \<in> set (ms (Alt a b) st c) \<longleftrightarrow> x \<in> set (ms a st c) \<or> x \<in> set (ms b st c)"
  by (simp add: ms.simps(8))

lemma in_ms_Grp: "(st', c') \<in> set (ms (Grp n a) st c) \<longleftrightarrow>
    (\<exists>c1. (st', c1) \<in> set (ms a st c) \<and> c' = c1(n := Some (take (fst st' - fst st) (snd st))))"
  by (auto simp: ms.simps(12))

lemma one_char_caps: "(st', c') \<in> set (one_char P st c) \<Longrightarrow> c' = c"
  by (cases "(P, st, c)" rule: one_char.cases) (auto split: if_splits)

lemma ms_caps_keep: "(st', c') \<in> set (ms r st c) \<Longrightarrow> c k \<noteq> None \<Longrightarrow> c' k \<noteq> None"
proof (induction r st c arbitrary: st' c' rule: ms.induct)
  case (7 a b st c)
  from "7.prems"(1) obtain st1 c1 where m: "(st1, c1) \<in> set (ms a st c)" "(st', c') \<in> set (ms b st1 c1)"
    unfolding in_ms_Seq by blast
  from "7.IH"(2)[OF m(1) refl m(2)] "7.IH"(1)[OF m(1) "7.prems"(2)] show ?case by simp
next
  case (8 a b st c)
  from "8.prems"(1) have "(st', c') \<in> set (ms a st c) \<or> (st', c') \<in> set (ms b st c)"
    by (simp add: in_ms_Alt)
  with "8.IH" "8.prems"(2) show ?case by blast
next
  case (9 a st c)
  from "9.prems"(1) consider "(st', c') = (st, c)"
    | st1 c1 where "(st1, c1) \<in> set (ms a st c)" "length (snd st1) < length (snd st)"
        "(st', c') \<in> set (ms (Star a) st1 c1)"
    by (subst (asm) in_ms_Star) blast
  then show ?case
  proof cases
    case 1 with "9.prems"(2) show ?thesis by simp
  next
    case 2
    from "9.IH"(2)[OF 2(1) refl 2(2) 2(3)] "9.IH"(1)[OF 2(1) "9.prems"(2)] show ?thesis by simp
  qed
next
  case (10 a st c)
  from "10.prems"(1) consider "(st', c') = (st, c)"
    | st1 c1 where "(st1, c1) \<in> set (ms a st c)" "length (snd st1) < length (snd st)"
        "(st', c') \<in> set (ms (StarLazy a) st1 c1)"
    by (subst (asm) in_ms_StarLazy) blast
  then show ?case
  proof cases
    case 1 with "10.prems"(2) show ?thesis by simp
  next
    case 2
    from "10.IH"(2)[OF 2(1) refl 2(2) 2(3)] "10.IH"(1)[OF 2(1) "10.prems"(2)] show ?thesis by simp
  qed
next
  case (11 a st c)
  from "11.prems"(1) obtain st1 c1 where m: "(st1, c1) \<in> set (ms a st c)"
      "(st', c') \<in> set (ms (StarLazy a) st1 c1)"
    unfolding in_ms_PlusLazy by blast
  from "11.IH"(2)[OF m(1) refl m(2)] "11.IH"(1)[OF m(1) "11.prems"(2)] show ?case by simp
next
  case (12 n a st c)
  from "12.prems"(1) obtain c1 where m: "(st', c1) \<in> set (ms a st c)"
      "c' = c1(n := Some (take (fst st' - fst st) (snd st)))"
    unfolding in_ms_Grp by blast
  from "12.IH"[OF m(1) "12.prems"(2)] m(2) show ?case by simp
next
  case (6 st c) then show ?case by (simp add: ms.simps(6) split: if_splits)
next
  case (1 st c) then show ?case by (simp add: ms.simps(1))
next
  case (2 a st c) then show ?case by (auto simp: ms.simps(2) dest: one_char_caps)
next
  case (3 st c) then show ?case by (auto simp: ms.simps(3) dest: one_char_caps)
next
  case (4 st c) then show ?case by (auto simp: ms.simps(4) dest: one_char_caps)
next
  case (5 a st c) then show ?case by (auto simp: ms.simps(5) dest: one_char_caps)
qed

lemma ms_must_groups:
  "(st', c') \<in> set (ms r st c) \<Longrightarrow> k \<in> must_groups r \<Longrightarrow> c' k \<noteq> None"
proof (induction r st c arbitrary: st' c' rule: ms.induct)
  case (7 a b st c)
  from "7.prems"(1) obtain st1 c1 where m: "(st1, c1) \<in> set (ms a st c)" "(st', c') \<in> set (ms b st1 c1)"
    unfolding in_ms_Seq by blast
  from "7.prems"(2) have "k \<in> must_groups a \<or> k \<in> must_groups b" by simp
  then show ?case
  proof
    assume "k \<in> must_groups a"
    from "7.IH"(1)[OF m(1) this] have "c1 k \<noteq> None" .
    with m(2) show ?thesis by (rule ms_caps_keep)
  next
    assume "k \<in> must_groups b"
    from "7.IH"(2)[OF m(1) refl m(2) this] show ?thesis .
  qed
next
  case (8 a b st c)
  from "8.prems"(1) have "(st', c') \<in> set (ms a st c) \<or> (st', c') \<in> set (ms b st c)"
    by (simp add: in_ms_Alt)
  moreover from "8.prems"(2) have "k \<in> must_groups a" "k \<in> must_groups b" by simp_all
  ultimately show ?case using "8.IH" by blast
next
  case (11 a st c)
  from "11.prems"(1) obtain st1 c1 where m: "(st1, c1) \<in> set (ms a st c)"
      "(st', c') \<in> set (ms (StarLazy a) st1 c1)"
    unfolding in_ms_PlusLazy by blast
  from "11.prems"(2) have "k \<in> must_groups a" by simp
  from "11.IH"(1)[OF m(1) this] have "c1 k \<noteq> None" .
  with m(2) show ?case by (rule ms_caps_keep)
next
  case (12 n a st c)
  from "12.prems"(1) obtain c1 where m: "(st', c1) \<in> set (ms a st c)"
      "c' = c1(n := Some (take (fst st' - fst st) (snd st)))"
    unfolding in_ms_Grp by blast
  show ?case
  proof (cases "k = n")
    case True with m(2) show ?thesis by simp
  next
    case False
    with "12.prems"(2) have "k \<in> must_groups a" by simp
    from "12.IH"[OF m(1) this] m(2) show ?thesis by simp
  qed
qed simp_all

lemma exec_from_groups:
  "exec_from r st = Some m \<Longrightarrow> \<exists>st0 st'. (st', groups m) \<in> set (ms r st0 no_caps)"
proof (induction r st rule: exec_from.induct)
  case (1 r i s)
  show ?case
  proof (cases "ms r (i, s) no_caps")
    case Nil
    with "1.prems" obtain x xs where s: "s = x # xs" and e: "exec_from r (Suc i, xs) = Some m"
      by (subst (asm) exec_from.simps) (cases s; simp)
    from "1.IH"[OF Nil s e] show ?thesis .
  next
    case (Cons y ys)
    obtain j t c where y: "y = ((j, t), c)" by (cases y) auto
    with Cons "1.prems" have "groups m = c" by (subst (asm) exec_from.simps) auto
    moreover from Cons y have "((j, t), c) \<in> set (ms r (i, s) no_caps)" by simp
    ultimately show ?thesis by blast
  qed
qed

lemma rx_match_groups:
  assumes "rx_match r s = Some m" and "k \<in> must_groups r"
  shows "\<exists>t. groups m k = Some t"
proof -
  from assms(1) obtain st0 st' where "(st', groups m) \<in> set (ms r st0 no_caps)"
    unfolding rx_match_def by (blast dest: exec_from_groups)
  from ms_must_groups[OF this assms(2)] show ?thesis by auto
qed

lemma group_trim_Inr:
  assumes "rx_match r s = Some m" and "k \<in> must_groups r"
  shows "\<exists>t. groups m k = Some t \<and> group_trim m k = Inr (trim t)"
  using rx_match_groups[OF assms] by (auto simp: group_trim_def)

lemma must_titleCompany: "1 \<in> must_groups titleCompanyRegex" "2 \<in> must_groups titleCompanyRegex"
  by (simp_all add: titleCompanyRegex_def)

lemma must_date: "1 \<in> must_groups dateRegex"
  by (simp add: dateRegex_def)

lemma must_bullet: "1 \<in> must_groups bulletRegex"
  by (simp add: bulletRegex_def)

lemma must_skill: "1 \<in> must_groups skillRegex" "2 \<in> must_groups skillRegex"
  by (simp_all add: skillRegex_def)

lemma job_step_total: "\<exists>st'. job_step st line = Inr st'"
proof -
  obtain jobs' currentJob where st: "st = (jobs', currentJob)" by (cases st)
  show ?thesis
  proof (cases "rx_match titleCompanyRegex line")
    case (Some m)
    from group_trim_Inr[OF Some must_titleCompany(1)] group_trim_Inr[OF Some must_titleCompany(2)]
    show ?thesis by (auto simp: job_step_def Some st)
  next
    case None
    note tc = None
    show ?thesis
    proof (cases currentJob)
      case None
      with tc st show ?thesis by (simp add: job_step_def)
    next
      case (Some j)
      note cj = Some
      show ?thesis
      proof (cases "rx_match dateRegex line")
        case (Some m)
        from group_trim_Inr[OF Some must_date] show ?thesis
          by (auto simp: job_step_def Some st tc cj)
      next
        case None
        note dm = None
        show ?thesis
        proof (cases "rx_match bulletRegex line")
          case (Some m)
          from group_trim_Inr[OF Some must_bullet] show ?thesis
            by (auto simp: job_step_def Some st tc cj dm)
        next
          case None
          then show ?thesis by (simp add: job_step_def st tc cj dm)
        qed
      qed
    qed
  qed
qed

lemma job_loop_total: "\<exists>st'. job_loop st ls = Inr st'"
proof (induction ls arbitrary: st)
  case Nil
  show ?case by simp
next
  case (Cons l ls)
  obtain st1 where "job_step st l = Inr st1" using job_step_total by blast
  with Cons[of st1] show ?case by simp
qed

lemma skill_line_total: "\<exists>sk. skill_line line = Inr sk"
proof (cases "rx_match skillRegex line")
  case None
  then show ?thesis by (simp add: skill_line_def)
next
  case (Some m)
  from group_trim_Inr[OF Some must_skill(1)] group_trim_Inr[OF Some must_skill(2)]
  show ?thesis by (auto simp: skill_line_def Some)
qed

lemma map_err_total:
  assumes "\<And>x. \<exists>y. f x = Inr y"
  shows "\<exists>ys. map_err f xs = Inr ys \<and> length ys = length xs"
proof (induction xs)
  case Nil
  show ?case by simp
next
  case (Cons x xs)
  from assms obtain y where "f x = Inr y" by blast
  with Cons show ?case by auto
qed

lemma process_section_total: "\<exists>p. process_section sec = Inr p \<and> title p = title sec"
proof -
  obtain st where j: "job_loop ([], None) (content sec) = Inr st"
    using job_loop_total by blast
  obtain sk where s: "map_err skill_line (content sec) = Inr sk"
    using map_err_total[of skill_line, OF skill_line_total] by blast
  show ?thesis by (simp add: process_section_def j s)
qed

section \<open>The result of \<open>parseResumeMarkdown\<close>\<close>

lemma map_err_process_section:
  "\<exists>ps. map_err process_section secs = Inr ps \<and> map title ps = map title secs"
proof (induction secs)
  case Nil
  show ?case by simp
next
  case (Cons sec secs)
  obtain p where "process_section sec = Inr p" "title p = title sec"
    using process_section_total by blast
  with Cons show ?case by auto
qed

lemma resume_lines_Nil [simp]: "resume_lines [] = []"
  by (simp add: resume_lines_def)

lemma parse_not_string: "\<not> is_string v \<Longrightarrow> parseResumeMarkdown v = Inr None"
  by (cases v) (simp_all add: parseResumeMarkdown_def)

lemma parse_few_lines:
  "length (resume_lines text) < 2 \<Longrightarrow> parseResumeMarkdown (JString text) = Inr None"
  by (simp add: parseResumeMarkdown_def Let_def)

lemma parse_document:
  assumes "resume_lines text = l1 # l2 # rest"
  shows "\<exists>ps. map_err process_section (fst (foldl walk_step ([], None) rest)) = Inr ps \<and>
     map title ps = map title (fst (foldl walk_step ([], None) rest)) \<and>
     parseResumeMarkdown (JString text) =
       Inr (Some \<lparr>header =
                    \<lparr>name = trim (replace_str ''# '' [] l1),
                     contact = map (\<lambda>f. case f of None \<Rightarrow> [] | Some t \<Rightarrow> t)
                                   (rx_split contactSeparator 0 (trim l2))\<rparr>,
                  sections = ps\<rparr>)"
proof -
  obtain ps where ps: "map_err process_section (fst (foldl walk_step ([], None) rest)) = Inr ps"
    "map title ps = map title (fst (foldl walk_step ([], None) rest))"
    using map_err_process_section by blast
  from assms have "text \<noteq> []" by auto
  with assms ps show ?thesis
    by (simp add: parseResumeMarkdown_def Let_def)
qed

lemma resume_lines_two:
  assumes "\<not> length (resume_lines text) < 2"
  shows "\<exists>l1 l2 rest. resume_lines text = l1 # l2 # rest"
proof (cases "resume_lines text")
  case Nil
  with assms show ?thesis by simp
next
  case (Cons l1 ls)
  with assms obtain l2 rest where "ls = l2 # rest" by (cases ls) simp_all
  with Cons show ?thesis by blast
qed

lemma parse_unparseable: "unparseable v \<Longrightarrow> parseResumeMarkdown v = Inr None"
proof (cases v)
  case (JString text')
  assume "unparseable v"
  with JString have "text' = [] \<or> length (nonblank_lines text') < 2"
    by (simp add: unparseable_def)
  then have "length (resume_lines text') < 2"
    by (auto simp: length_resume_lines[symmetric])
  with JString show ?thesis by (simp add: parse_few_lines)
qed (simp_all add: parse_not_string)

lemma parse_parseable:
  assumes "\<not> unparseable v"
  shows "\<exists>d. parseResumeMarkdown v = Inr (Some d)"
proof -
  from assms obtain text' where v: "v = JString text'"
    and n: "\<not> length (nonblank_lines text') < 2"
    by (cases v) (auto simp: unparseable_def)
  from n have "\<not> length (resume_lines text') < 2" by (simp add: length_resume_lines)
  then obtain l1 l2 rest where "resume_lines text' = l1 # l2 # rest"
    using resume_lines_two by blast
  from parse_document[OF this] v show ?thesis by blast
qed

text \<open>
  Claim C1. \<open>parseResumeMarkdown\<close> returns \<open>null\<close> for every input that is
  not a string, is the empty string, or has fewer than two lines that are not
  blank; for every other string it returns a document. The lines are counted
  on the text as it stands: trimming the text first, as the code does, does
  not change the lines that are not blank, up to white space at their ends.
\<close>

theorem parse_absent_iff:
  "(unparseable v \<longrightarrow> parseResumeMarkdown v = Inr None) \<and>
   (\<not> unparseable v \<longrightarrow> (\<exists>d. parseResumeMarkdown v = Inr (Some d)))"
  using parse_unparseable parse_parseable by blast

theorem parse_absent_iff_witness:
  "unparseable (JString ''# Jane Doe\<newline>  \<newline>'') \<and>
   parseResumeMarkdown (JString ''# Jane Doe\<newline>  \<newline>'') = Inr None \<and>
   unparseable JNull \<and> parseResumeMarkdown JNull = Inr None \<and>
   \<not> unparseable (JString '' \<newline>Jane Doe\<newline>\<newline>jane@x.com'') \<and>
   (\<exists>d. parseResumeMarkdown (JString '' \<newline>Jane Doe\<newline>\<newline>jane@x.com'') = Inr (Some d))"
proof -
  have a: "unparseable (JString ''# Jane Doe\<newline>  \<newline>'')" by code_simp
  have b: "unparseable JNull" by code_simp
  have c: "\<not> unparseable (JString '' \<newline>Jane Doe\<newline>\<newline>jane@x.com'')" by code_simp
  from a b c parse_absent_iff[of "JString ''# Jane Doe\<newline>  \<newline>''"] parse_absent_iff[of JNull]
    parse_absent_iff[of "JString '' \<newline>Jane Doe\<newline>\<newline>jane@x.com''"]
  show ?thesis by blast
qed

lemma walk_step_no_section:
  "\<not> startsWith ''## '' line \<Longrightarrow> walk_step (secs, None) line = (secs, None)"
  by (simp add: walk_step_def)

lemma not_matches: "\<not> matches r s \<longleftrightarrow> rx_match r s = None"
  by (simp add: matches_def split: option.splits)

lemma job_step_no_match:
  assumes "\<not> matches titleCompanyRegex line" "\<not> matches dateRegex line"
    "\<not> matches bulletRegex line"
  shows "job_step st line = Inr st"
  using assms unfolding not_matches
  by (cases st) (auto simp: job_step_def split: option.splits)

lemma job_step_no_job:
  assumes "\<not> matches titleCompanyRegex line"
  shows "job_step (js, None) line = Inr (js, None)"
  using assms unfolding not_matches by (simp add: job_step_def)

lemma job_loop_append:
  "job_loop st (pre @ post) =
     (case job_loop st pre of Inl e \<Rightarrow> Inl e | Inr st' \<Rightarrow> job_loop st' post)"
  by (induction pre arbitrary: st) (simp_all split: sum.splits)

lemma job_loop_skip:
  assumes "\<not> matches titleCompanyRegex line" "\<not> matches dateRegex line"
    "\<not> matches bulletRegex line"
  shows "job_loop st (pre @ line # post) = job_loop st (pre @ post)"
proof -
  have skip: "job_loop st' (line # post) = job_loop st' post" for st'
    using job_step_no_match[OF assms, of st'] by simp
  show ?thesis
    unfolding job_loop_append[of st pre "line # post"] job_loop_append[of st pre post]
    by (cases "job_loop st pre") (simp_all only: sum.case skip)
qed

text \<open>
  Claim C8. \<open>parseResumeMarkdown\<close> is total and never throws: every group
  that the post-processing reads takes part in every match of its pattern, so
  no \<open>trim\<close> is called on \<open>undefined\<close>. The result is \<open>null\<close> for an input
  that is not a string, is empty or has fewer than two lines that are not
  blank, and a document for every other string. A line of a Work Experience
  section that matches none of the three patterns leaves \<open>jobs\<close> and
  \<open>currentJob\<close> as they are, so the jobs of the section are those of the
  section without the line; a date or bullet line while no job is open is
  dropped in the same way, and so is a line before the first section heading.
\<close>

theorem parse_never_throws:
  "(\<exists>r. parseResumeMarkdown v = Inr r) \<and>
   (unparseable v \<longrightarrow> parseResumeMarkdown v = Inr None) \<and>
   (\<not> unparseable v \<longrightarrow> (\<exists>d. parseResumeMarkdown v = Inr (Some d))) \<and>
   (\<not> matches titleCompanyRegex line \<and> \<not> matches dateRegex line \<and>
    \<not> matches bulletRegex line \<longrightarrow>
      job_step st line = Inr st \<and>
      job_loop st (pre @ line # post) = job_loop st (pre @ post)) \<and>
   (\<not> matches titleCompanyRegex line \<longrightarrow> job_step (js, None) line = Inr (js, None)) \<and>
   (\<not> startsWith ''## '' line \<longrightarrow> walk_step (secs, None) line = (secs, None))"
proof -
  have "\<exists>r. parseResumeMarkdown v = Inr r"
    using parse_unparseable[of v] parse_parseable[of v] by (cases "unparseable v") auto
  then show ?thesis
    using parse_unparseable parse_parseable job_step_no_match job_loop_skip job_step_no_job
      walk_step_no_section
    by blast
qed

theorem parse_never_throws_witness:
  "unparseable (JString ''# A\<newline> \<newline>'') \<and> parseResumeMarkdown (JString ''# A\<newline> \<newline>'') = Inr None \<and>
   unparseable JUndefined \<and> parseResumeMarkdown JUndefined = Inr None \<and>
   \<not> unparseable
       (JString ''# A\<newline>b\<newline>intro\<newline>## Work Experience\<newline>**Engineer** | Acme\<newline>Remote\<newline>* Did X'') \<and>
   parseResumeMarkdown
       (JString ''# A\<newline>b\<newline>intro\<newline>## Work Experience\<newline>**Engineer** | Acme\<newline>Remote\<newline>* Did X'') =
     Inr (Some
       \<lparr>header = \<lparr>name = ''A'', contact = [''b'']\<rparr>,
        sections =
          [\<lparr>title = ''Work Experience'',
            content = ContentLines [''**Engineer** | Acme'', ''Remote'', ''* Did X''],
            jobs = Some [\<lparr>job_title = ''Engineer'', company = ''Acme'', date = [],
                           description = [''Did X'']\<rparr>],
            skills = None\<rparr>]\<rparr>) \<and>
   \<not> matches titleCompanyRegex ''Remote'' \<and> \<not> matches dateRegex ''Remote'' \<and>
   \<not> matches bulletRegex ''Remote'' \<and>
   job_step ([], Some \<lparr>job_title = ''Engineer'', company = ''Acme'', date = [],
                        description = []\<rparr>) ''Remote'' =
     Inr ([], Some \<lparr>job_title = ''Engineer'', company = ''Acme'', date = [],
                     description = []\<rparr>) \<and>
   job_loop ([], None) ([''**Engineer** | Acme''] @ ''Remote'' # [''* Did X'']) =
     Inr ([], Some \<lparr>job_title = ''Engineer'', company = ''Acme'', date = [],
                     description = [''Did X'']\<rparr>) \<and>
   job_step ([], None) ''Remote'' = Inr ([], None) \<and>
   \<not> startsWith ''## '' ''Remote'' \<and> walk_step ([], None) ''Remote'' = ([], None)"
proof -
  let ?doc = "JString ''# A\<newline>b\<newline>intro\<newline>## Work Experience\<newline>**Engineer** | Acme\<newline>Remote\<newline>* Did X''"
  let ?j = "\<lparr>job_title = ''Engineer'', company = ''Acme'', date = [], description = []\<rparr>"
  have u: "unparseable (JString ''# A\<newline> \<newline>'')" "unparseable JUndefined" "\<not> unparseable ?doc"
    by code_simp+
  have a: "\<not> matches titleCompanyRegex ''Remote''" "\<not> matches dateRegex ''Remote''"
    "\<not> matches bulletRegex ''Remote''" "\<not> startsWith ''## '' ''Remote''"
    by code_simp+
  have d: "parseResumeMarkdown ?doc =
     Inr (Some
       \<lparr>header = \<lparr>name = ''A'', contact = [''b'']\<rparr>,
        sections =
          [\<lparr>title = ''Work Experience'',
            content = ContentLines [''**Engineer** | Acme'', ''Remote'', ''* Did X''],
            jobs = Some [\<lparr>job_title = ''Engineer'', company = ''Acme'', date = [],
                           description = [''Did X'']\<rparr>],
            skills = None\<rparr>]\<rparr>)"
    by code_simp
  have l: "job_loop ([], None) ([''**Engineer** | Acme''] @ [''* Did X'']) =
     Inr ([], Some \<lparr>job_title = ''Engineer'', company = ''Acme'', date = [],
                     description = [''Did X'']\<rparr>)"
    by code_simp
  have n: "parseResumeMarkdown (JString ''# A\<newline> \<newline>'') = Inr None"
    "parseResumeMarkdown JUndefined = Inr None"
    using u parse_never_throws[of "JString ''# A\<newline> \<newline>''"] parse_never_throws[of JUndefined]
    by blast+
  have s: "job_step ([], Some ?j) ''Remote'' = Inr ([], Some ?j)"
    "job_step ([], None) ''Remote'' = Inr ([], None)"
    "walk_step ([], None) ''Remote'' = ([], None)"
    using a parse_never_throws[of ?doc "''Remote''" "([], Some ?j)" "[]" "[]" "[]" "[]"]
    by blast+
  have k: "job_loop ([], None) ([''**Engineer** | Acme''] @ ''Remote'' # [''* Did X'']) =
           job_loop ([], None) ([''**Engineer** | Acme''] @ [''* Did X''])"
    using a parse_never_throws[of ?doc "''Remote''" "([], None)" "[''**Engineer** | Acme'']"
        "[''* Did X'']" "[]" "[]"]
    by blast
  from u a d n s show ?thesis unfolding k l by blast
qed

section \<open>The greedy \<open>(.*)\<close> of the date and bullet patterns\<close>

lemma dotc_simps [simp]: "dotc CHR ''*''" "dotc CHR '' ''"
  by (simp_all add: dotc_def isLineTerminator_def)

lemma ms_Dot_Cons: "ms Dot (i, x # s) c = (if dotc x then [((Suc i, s), c)] else [])"
  by (simp add: ms.simps(3) dotc_def)

lemma ms_Dot_Nil: "ms Dot (i, []) c = []"
  by (simp add: ms.simps(3))

lemma ms_Star_Dot_Nil: "ms (Star Dot) (i, []) c = [((i, []), c)]"
  by (subst ms.simps(9)) (simp add: ms_Dot_Nil)

lemma ms_Star_Dot_Cons:
  "ms (Star Dot) (i, x # s) c =
     (if dotc x then ms (Star Dot) (Suc i, s) c @ [((i, x # s), c)] else [((i, x # s), c)])"
  by (subst ms.simps(9)) (simp add: ms_Dot_Cons)

lemma ms_Star_Dot_head:
  "\<exists>rest. ms (Star Dot) (i, s) c =
     ((i + length (takeWhile dotc s), dropWhile dotc s), c) # rest"
proof (induction s arbitrary: i)
  case Nil
  show ?case by (simp add: ms_Star_Dot_Nil)
next
  case (Cons x s)
  from Cons[of "Suc i"] obtain rest where
    "ms (Star Dot) (Suc i, s) c = ((Suc i + length (takeWhile dotc s), dropWhile dotc s), c) # rest"
    by blast
  then show ?case by (simp add: ms_Star_Dot_Cons)
qed

lemma ms_Star_Dot_set:
  "(st', c') \<in> set (ms (Star Dot) (i, s) c) \<Longrightarrow>
   \<exists>k\<le>length (takeWhile dotc s). st' = (i + k, drop k s) \<and> c' = c"
proof (induction s arbitrary: i)
  case Nil
  then show ?case by (simp add: ms_Star_Dot_Nil)
next
  case (Cons x s)
  show ?case
  proof (cases "(st', c') = ((i, x # s), c)")
    case True
    then show ?thesis by (intro exI[of _ 0]) simp
  next
    case False
    with Cons.prems have d: "dotc x" and m: "(st', c') \<in> set (ms (Star Dot) (Suc i, s) c)"
      by (auto simp: ms_Star_Dot_Cons split: if_splits)
    from Cons.IH[OF m] obtain k where "k \<le> length (takeWhile dotc s)"
      "st' = (Suc i + k, drop k s)" "c' = c" by blast
    with d show ?thesis by (intro exI[of _ "Suc k"]) simp
  qed
qed

lemma ms_Star_Dot_split:
  assumes "\<forall>x\<in>set u. dotc x"
  shows "\<exists>rest. ms (Star Dot) (i, u @ CHR ''*'' # t) c =
     ms (Star Dot) (Suc (i + length u), t) c @ ((i + length u, CHR ''*'' # t), c) # rest"
  using assms
proof (induction u arbitrary: i)
  case Nil
  show ?case by (simp add: ms_Star_Dot_Cons)
next
  case (Cons x u)
  from Cons.prems have "\<forall>x\<in>set u. dotc x" "dotc x" by simp_all
  from Cons.IH[OF this(1), of "Suc i"] obtain rest where
    "ms (Star Dot) (Suc i, u @ CHR ''*'' # t) c =
       ms (Star Dot) (Suc (Suc i + length u), t) c @ ((Suc i + length u, CHR ''*'' # t), c) # rest"
    by blast
  with \<open>dotc x\<close> show ?case by (simp add: ms_Star_Dot_Cons)
qed

lemma ms_Chr_Cons: "ms (Chr a) (i, x # s) c = (if x = a then [((Suc i, s), c)] else [])"
  by (simp add: ms.simps(2))

lemma ms_Chr_Nil: "ms (Chr a) (i, []) c = []"
  by (simp add: ms.simps(2))

text \<open>After a run without asterisk no asterisk can follow a greedy \<open>(.*)\<close>.\<close>

lemma no_asterisk_after:
  assumes v: "\<forall>x\<in>set v. dotc x \<and> x \<noteq> CHR ''*''" and w: "w = [] \<or> \<not> dotc (hd w)"
    and m: "(st', c') \<in> set (ms (Star Dot) (i, v @ w) c)"
  shows "ms (Chr CHR ''*'') st' c'' = []"
proof -
  have tw: "takeWhile dotc (v @ w) = v"
  proof (cases w)
    case Nil
    with v show ?thesis by simp
  next
    case (Cons y ys)
    with w have "\<not> dotc y" by simp
    with v Cons show ?thesis by (simp add: takeWhile_tail)
  qed
  from ms_Star_Dot_set[OF m] tw obtain k where k: "k \<le> length v" "st' = (i + k, drop k (v @ w))"
    by auto
  show ?thesis
  proof (cases "k < length v")
    case True
    then have "drop k (v @ w) = v ! k # drop (Suc k) v @ w"
      by (simp add: Cons_nth_drop_Suc)
    moreover from True v have "v ! k \<noteq> CHR ''*''" by simp
    ultimately show ?thesis using k by (simp add: ms_Chr_Cons)
  next
    case False
    with k have "drop k (v @ w) = w" by simp
    with w k show ?thesis by (cases w) (auto simp: ms_Chr_Cons ms_Chr_Nil)
  qed
qed

lemma ms_group_then_asterisk:
  assumes u: "\<forall>x\<in>set u. dotc x"
    and v: "\<forall>x\<in>set v. dotc x \<and> x \<noteq> CHR ''*''" and w: "w = [] \<or> \<not> dotc (hd w)"
  shows "\<exists>rest. ms (Seq (Grp n (Star Dot)) (Chr CHR ''*'')) (i, u @ CHR ''*'' # v @ w) c =
     ((Suc (i + length u), v @ w), c(n := Some u)) # rest"
proof -
  let ?s = "u @ CHR ''*'' # v @ w"
  let ?g = "\<lambda>(st', c'). (st', c'(n := Some (take (fst st' - fst (i, ?s)) (snd (i, ?s)))))"
  let ?h = "\<lambda>(st', c'). ms (Chr CHR ''*'') st' c'"
  from ms_Star_Dot_split[OF u, of i "v @ w" c] obtain rest where
    sp: "ms (Star Dot) (i, ?s) c =
       ms (Star Dot) (Suc (i + length u), v @ w) c @ ((i + length u, CHR ''*'' # v @ w), c) # rest"
    by blast
  have none: "concat (map ?h (map ?g (ms (Star Dot) (Suc (i + length u), v @ w) c))) = []"
    using no_asterisk_after[OF v w] by (auto simp: split_def)
  have "ms (Seq (Grp n (Star Dot)) (Chr CHR ''*'')) (i, ?s) c =
          concat (map ?h (map ?g (ms (Star Dot) (i, ?s) c)))"
    by (simp add: ms.simps(7) ms.simps(12))
  also have "\<dots> = ?h (?g ((i + length u, CHR ''*'' # v @ w), c)) @ concat (map ?h (map ?g rest))"
    unfolding sp using none by simp
  also have "?h (?g ((i + length u, CHR ''*'' # v @ w), c)) =
          [((Suc (i + length u), v @ w), c(n := Some u))]"
    by (simp add: ms_Chr_Cons)
  finally show ?thesis by simp
qed

lemma exec_from_anchored: "0 < i \<Longrightarrow> exec_from (Seq Bol r) (i, s) = None"
proof (induction s arbitrary: i)
  case Nil
  then show ?case by (subst exec_from.simps) (simp add: ms.simps(6) ms.simps(7))
next
  case (Cons x s)
  from Cons.IH[of "Suc i"] Cons.prems show ?case
    by (subst exec_from.simps) (simp add: ms.simps(6) ms.simps(7))
qed

lemma rx_match_anchored:
  "rx_match (Seq Bol r) s =
     (case ms r (0, s) no_caps of
        [] \<Rightarrow> None
      | ((j, t), c) # _ \<Rightarrow> Some \<lparr>index = 0, matched = take j s, groups = c\<rparr>)"
proof -
  have "ms (Seq Bol r) (0, s) no_caps = ms r (0, s) no_caps"
    by (simp add: ms.simps(6) ms.simps(7))
  then show ?thesis
    unfolding rx_match_def
    by (subst exec_from.simps) (cases s; auto simp: exec_from_anchored split: list.splits)
qed

lemma ms_two_chars:
  "ms (Seq (Chr a) (Chr b)) (i, s) c =
     (case s of x # y # r \<Rightarrow> if x = a \<and> y = b then [((Suc (Suc i), r), c)] else [] | _ \<Rightarrow> [])"
  by (cases s; cases "tl s") (auto simp: ms.simps(7) ms.simps(2))

lemma bullet_match_form:
  assumes "rx_match bulletRegex line = Some m"
  shows "\<exists>rest. line = CHR ''*'' # CHR '' '' # rest \<and> groups m 1 = Some (takeWhile dotc rest)"
proof -
  have b: "bulletRegex = Seq Bol (Seq (Seq (Chr CHR ''*'') (Chr CHR '' '')) (Grp 1 (Star Dot)))"
    by (simp add: bulletRegex_def)
  have ne: "ms (Seq (Seq (Chr CHR ''*'') (Chr CHR '' '')) (Grp 1 (Star Dot))) (0, line) no_caps \<noteq> []"
    using assms unfolding b rx_match_anchored by (auto split: list.splits)
  then obtain rest where line: "line = CHR ''*'' # CHR '' '' # rest"
    by (subst (asm) ms.simps(7)) (auto simp: ms_two_chars split: list.splits if_splits)
  obtain tl' where h: "ms (Star Dot) (2, rest) no_caps =
      ((2 + length (takeWhile dotc rest), dropWhile dotc rest), no_caps) # tl'"
    using ms_Star_Dot_head[of 2 rest no_caps] by blast
  have "ms (Seq (Seq (Chr CHR ''*'') (Chr CHR '' '')) (Grp 1 (Star Dot))) (0, line) no_caps =
      ms (Grp 1 (Star Dot)) (2, rest) no_caps"
    by (subst ms.simps(7)) (simp add: ms_two_chars line numeral_2_eq_2)
  also have "\<dots> = ((2 + length (takeWhile dotc rest), dropWhile dotc rest),
                    no_caps(1 := Some (takeWhile dotc rest))) #
                  map (\<lambda>(st', c'). (st', c'(1 := Some (take (fst st' - 2) rest)))) tl'"
    by (simp add: ms.simps(12) h takeWhile_eq_take[symmetric])
  finally have "groups m 1 = Some (takeWhile dotc rest)"
    using assms unfolding b rx_match_anchored by auto
  with line show ?thesis by blast
qed

lemma title_no_match_bullet:
  "rx_match titleCompanyRegex (CHR ''*'' # CHR '' '' # rest) = None"
proof -
  have "\<exists>r. titleCompanyRegex = Seq Bol (Seq (Seq (Chr CHR ''*'') (Chr CHR ''*'')) r)"
    by (simp add: titleCompanyRegex_def)
  then obtain r where t: "titleCompanyRegex = Seq Bol (Seq (Seq (Chr CHR ''*'') (Chr CHR ''*'')) r)"
    by blast
  have "ms (Seq (Seq (Chr CHR ''*'') (Chr CHR ''*'')) r) (0, CHR ''*'' # CHR '' '' # rest) no_caps = []"
    by (subst ms.simps(7)) (simp add: ms_two_chars)
  then show ?thesis unfolding t rx_match_anchored by simp
qed

lemma date_match_asterisk:
  assumes u: "\<forall>x\<in>set u. dotc x"
    and v: "\<forall>x\<in>set v. dotc x \<and> x \<noteq> CHR ''*''" and w: "w = [] \<or> \<not> dotc (hd w)"
  shows "\<exists>m. rx_match dateRegex (CHR ''*'' # u @ CHR ''*'' # v @ w) = Some m \<and>
              groups m 1 = Some u"
proof -
  have d: "dateRegex = Seq Bol (Seq (Chr CHR ''*'') (Seq (Grp 1 (Star Dot)) (Chr CHR ''*'')))"
    by (simp add: dateRegex_def)
  obtain rest where
    "ms (Seq (Grp 1 (Star Dot)) (Chr CHR ''*'')) (Suc 0, u @ CHR ''*'' # v @ w) no_caps =
       ((Suc (Suc 0 + length u), v @ w), no_caps(1 := Some u)) # rest"
    using ms_group_then_asterisk[OF u v w, of 1 "Suc 0" no_caps] by blast
  then have "\<exists>rest. ms (Seq (Chr CHR ''*'') (Seq (Grp 1 (Star Dot)) (Chr CHR ''*'')))
              (0, CHR ''*'' # u @ CHR ''*'' # v @ w) no_caps =
       ((Suc (Suc 0 + length u), v @ w), no_caps(1 := Some u)) # rest"
    by (subst ms.simps(7)) (simp add: ms_Chr_Cons)
  then show ?thesis unfolding d rx_match_anchored by auto
qed

lemma before_last_asterisk_append:
  "CHR ''*'' \<notin> set v \<Longrightarrow> before_last_asterisk (u @ CHR ''*'' # v) = u"
proof -
  assume "CHR ''*'' \<notin> set v"
  then have "dropWhile (\<lambda>x. x \<noteq> CHR ''*'') (rev v @ CHR ''*'' # rev u) =
             dropWhile (\<lambda>x. x \<noteq> CHR ''*'') (CHR ''*'' # rev u)"
    by (intro dropWhile_append2) auto
  then show ?thesis by (simp add: before_last_asterisk_def)
qed

text \<open>
  Claim C9. While a job is open, the date pattern is tried before the bullet
  pattern. A line \<^verbatim>\<open>* text\<close> whose text has a further asterisk therefore sets
  the date of the job, to the trimmed part of the text before its last
  asterisk, whatever the date was, and the list of bullets stays as it is.
\<close>

theorem bullet_with_asterisk_sets_date:
  assumes "bullet_text line = Some t" and "CHR ''*'' \<in> set t"
  shows "job_step (js, Some j) line = Inr (js, Some (j\<lparr>date := trim (before_last_asterisk t)\<rparr>))"
proof -
  from assms(1) obtain m where m: "rx_match bulletRegex line = Some m" "groups m 1 = Some t"
    by (auto simp: bullet_text_def split: option.splits)
  from bullet_match_form[OF m(1)] m(2) obtain rest where
    line: "line = CHR ''*'' # CHR '' '' # rest" and t: "t = takeWhile dotc rest"
    by auto
  from split_list_last[OF assms(2)] obtain u v where
    uv: "t = u @ CHR ''*'' # v" "CHR ''*'' \<notin> set v" by blast
  define w where "w = dropWhile dotc rest"
  have "rest = takeWhile dotc rest @ dropWhile dotc rest" by simp
  then have "rest = t @ w" unfolding t w_def .
  then have rest: "rest = u @ CHR ''*'' # v @ w" unfolding uv(1) by simp
  have w: "w = [] \<or> \<not> dotc (hd w)"
    unfolding w_def using hd_dropWhile[of dotc rest] by blast
  have "\<forall>x\<in>set t. dotc x" unfolding t by (auto dest: set_takeWhileD)
  with uv have u: "\<forall>x\<in>set (CHR '' '' # u). dotc x"
    and v: "\<forall>x\<in>set v. dotc x \<and> x \<noteq> CHR ''*''" by auto
  from date_match_asterisk[OF u v w] obtain dm where
    dm: "rx_match dateRegex line = Some dm" "groups dm 1 = Some (CHR '' '' # u)"
    unfolding line rest by auto
  have tc: "rx_match titleCompanyRegex line = None"
    unfolding line by (rule title_no_match_bullet)
  have "isWhiteSpace CHR '' ''" by (simp add: isWhiteSpace_def)
  then have "trim (CHR '' '' # u) = trim u" by (rule trim_ws_Cons)
  moreover have "before_last_asterisk t = u"
    unfolding uv(1) using uv(2) by (rule before_last_asterisk_append)
  ultimately show ?thesis
    using tc dm by (simp add: job_step_def group_trim_def)
qed

theorem bullet_with_asterisk_sets_date_witness:
  "bullet_text ''* Built **fast** APIs'' = Some ''Built **fast** APIs'' \<and>
   CHR ''*'' \<in> set ''Built **fast** APIs'' \<and>
   job_step ([], Some \<lparr>job_title = ''Engineer'', company = ''Acme'', date = ''2020 - Present'',
                        description = [''Did X'']\<rparr>) ''* Built **fast** APIs'' =
     Inr ([], Some \<lparr>job_title = ''Engineer'', company = ''Acme'', date = ''Built **fast*'',
                     description = [''Did X'']\<rparr>)"
proof -
  have a: "bullet_text ''* Built **fast** APIs'' = Some ''Built **fast** APIs''" by code_simp
  have b: "CHR ''*'' \<in> set ''Built **fast** APIs''" by simp
  have c: "trim (before_last_asterisk ''Built **fast** APIs'') = ''Built **fast*''" by code_simp
  from bullet_with_asterisk_sets_date[OF a b, of "[]"
      "\<lparr>job_title = ''Engineer'', company = ''Acme'', date = ''2020 - Present'',
        description = [''Did X'']\<rparr>"] a b c
  show ?thesis by simp
qed

section \<open>Sections\<close>

lemma replace_str_prefix:
  "startsWith p s \<Longrightarrow> replace_str p rep s = rep @ drop (length p) s"
  by (cases s) (auto simp: startsWith_def)

lemma replace_str_absent: "\<not> includes_str p s \<Longrightarrow> replace_str p rep s = s"
  by (induction s) auto

lemma walk_step_heading:
  "startsWith ''## '' l \<Longrightarrow>
   walk_step (secs, cur) l =
     (secs @ [\<lparr>title = trim (drop 3 l), content = [], jobs = None, skills = None\<rparr>],
      Some (length secs))"
  by (simp add: walk_step_def replace_str_prefix numeral_3_eq_3)

lemma walk_step_content:
  "\<not> startsWith ''## '' l \<Longrightarrow>
   walk_step (secs @ [s], Some (length secs)) l =
     (secs @ [s\<lparr>content := content s @ [l]\<rparr>], Some (length secs))"
  by (simp add: walk_step_def)

lemma walk_open:
  "fst (foldl walk_step (secs @ [s], Some (length secs)) ls) =
     secs @ [s\<lparr>content := content s @ takeWhile (\<lambda>x. \<not> startsWith ''## '' x) ls\<rparr>] @
     raw_sections ls"
proof (induction ls arbitrary: secs s)
  case Nil
  show ?case by simp
next
  case (Cons l ls)
  show ?case
  proof (cases "startsWith ''## '' l")
    case True
    let ?new = "\<lparr>title = trim (drop 3 l), content = [], jobs = None, skills = None\<rparr>"
    have "foldl walk_step (secs @ [s], Some (length secs)) (l # ls) =
          foldl walk_step ((secs @ [s]) @ [?new], Some (length (secs @ [s]))) ls"
      using walk_step_heading[OF True, of "secs @ [s]" "Some (length secs)"] by simp
    then have "fst (foldl walk_step (secs @ [s], Some (length secs)) (l # ls)) =
          (secs @ [s]) @
          [?new\<lparr>content := content ?new @ takeWhile (\<lambda>x. \<not> startsWith ''## '' x) ls\<rparr>] @
          raw_sections ls"
      by (simp only: Cons.IH[of "secs @ [s]" ?new])
    then show ?thesis using True by simp
  next
    case False
    have "foldl walk_step (secs @ [s], Some (length secs)) (l # ls) =
          foldl walk_step (secs @ [s\<lparr>content := content s @ [l]\<rparr>], Some (length secs)) ls"
      using walk_step_content[OF False, of secs s] by simp
    then have "fst (foldl walk_step (secs @ [s], Some (length secs)) (l # ls)) =
          secs @
          [s\<lparr>content := content s @ [l]\<rparr>
             \<lparr>content := content (s\<lparr>content := content s @ [l]\<rparr>) @
                takeWhile (\<lambda>x. \<not> startsWith ''## '' x) ls\<rparr>] @
          raw_sections ls"
      by (simp only: Cons.IH[of secs "s\<lparr>content := content s @ [l]\<rparr>"])
    then show ?thesis using False by simp
  qed
qed

lemma walk_raw_sections: "fst (foldl walk_step ([], None) ls) = raw_sections ls"
proof (induction ls)
  case Nil
  show ?case by simp
next
  case (Cons l ls)
  show ?case
  proof (cases "startsWith ''## '' l")
    case True
    let ?new = "\<lparr>title = trim (drop 3 l), content = [], jobs = None, skills = None\<rparr>"
    have "foldl walk_step ([], None) (l # ls) =
          foldl walk_step ([] @ [?new], Some (length ([] :: string list resume_section list))) ls"
      using walk_step_heading[OF True, of "[]" None] by simp
    then have "fst (foldl walk_step ([], None) (l # ls)) =
          [] @ [?new\<lparr>content := content ?new @ takeWhile (\<lambda>x. \<not> startsWith ''## '' x) ls\<rparr>] @
          raw_sections ls"
      by (simp only: walk_open[of "[]" ?new])
    then show ?thesis using True by simp
  next
    case False
    with Cons show ?thesis by (simp add: walk_step_no_section)
  qed
qed

text \<open>
  Claim C7, as amended. \<open>parseResumeMarkdown\<close> drops the lines that are blank
  after trimming and keeps the others as they are; only the text as a whole is
  trimmed. After the two header lines, a line opens a section exactly when it
  starts with \<^verbatim>\<open>## \<close> as it stands; every other line, also one with white
  space before \<^verbatim>\<open>## \<close>, is content of the section opened last, or is dropped
  when no section is open. The sections of the document are these groups of
  lines, each post-processed by its title.
\<close>

theorem sections_of_untrimmed_lines:
  assumes "resume_lines text = l1 # l2 # rest"
  shows "\<exists>d. parseResumeMarkdown (JString text) = Inr (Some d) \<and>
             map_err process_section (raw_sections rest) = Inr (sections d)"
proof -
  from parse_document[OF assms] obtain ps where
    ps: "map_err process_section (fst (foldl walk_step ([], None) rest)) = Inr ps"
    and d: "parseResumeMarkdown (JString text) =
       Inr (Some \<lparr>header =
                    \<lparr>name = trim (replace_str ''# '' [] l1),
                     contact = map (\<lambda>f. case f of None \<Rightarrow> [] | Some t \<Rightarrow> t)
                                   (rx_split contactSeparator 0 (trim l2))\<rparr>,
                  sections = ps\<rparr>)"
    by blast
  from ps have "map_err process_section (raw_sections rest) = Inr ps"
    by (simp add: walk_raw_sections)
  with d show ?thesis by simp
qed

theorem sections_of_untrimmed_lines_witness:
  "resume_lines ''# A\<newline>b\<newline>\<newline>## One \<newline>  ## Two\<newline>x'' =
     [''# A'', ''b'', ''## One '', ''  ## Two'', ''x''] \<and>
   (\<exists>d. parseResumeMarkdown (JString ''# A\<newline>b\<newline>\<newline>## One \<newline>  ## Two\<newline>x'') = Inr (Some d) \<and>
        sections d = [\<lparr>title = ''One'', content = ContentText ''  ## Two\<newline>x'', jobs = None,
                       skills = None\<rparr>])"
proof -
  have a: "resume_lines ''# A\<newline>b\<newline>\<newline>## One \<newline>  ## Two\<newline>x'' =
     [''# A'', ''b'', ''## One '', ''  ## Two'', ''x'']" by code_simp
  have b: "map_err process_section (raw_sections [''## One '', ''  ## Two'', ''x'']) =
     Inr [\<lparr>title = ''One'', content = ContentText ''  ## Two\<newline>x'', jobs = None,
            skills = None\<rparr>]" by code_simp
  from sections_of_untrimmed_lines[OF a] show ?thesis
    unfolding b using a by auto
qed

text \<open>
  Claim C7 as stated fails: the line \<^verbatim>\<open>  ## Two\<close> starts with \<^verbatim>\<open>## \<close> after
  trimming, and it does not open a section; it is content of the section One.
\<close>

theorem indented_heading_counterexample:
  "parseResumeMarkdown (JString ''# A\<newline>b\<newline>## One\<newline>  ## Two\<newline>x'') =
     Inr (Some \<lparr>header = \<lparr>name = ''A'', contact = [''b'']\<rparr>,
                sections = [\<lparr>title = ''One'', content = ContentText ''  ## Two\<newline>x'',
                             jobs = None, skills = None\<rparr>]\<rparr>)"
  by code_simp

section \<open>The contact line\<close>

lemma ms_Space_Cons: "ms Space (i, x # s) c = (if isWhiteSpace x then [((Suc i, s), c)] else [])"
  by (simp add: ms.simps(4))

lemma ms_Space_Nil: "ms Space (i, []) c = []"
  by (simp add: ms.simps(4))

lemma ms_Star_Space_Nil: "ms (Star Space) (i, []) c = [((i, []), c)]"
  by (subst ms.simps(9)) (simp add: ms_Space_Nil)

lemma ms_Star_Space_Cons:
  "ms (Star Space) (i, x # s) c =
     (if isWhiteSpace x then ms (Star Space) (Suc i, s) c @ [((i, x # s), c)]
      else [((i, x # s), c)])"
  by (subst ms.simps(9)) (simp add: ms_Space_Cons)

lemma ms_Star_Space_head:
  "\<exists>rest. ms (Star Space) (i, s) c =
     ((i + length (takeWhile isWhiteSpace s), dropWhile isWhiteSpace s), c) # rest"
proof (induction s arbitrary: i)
  case Nil
  show ?case by (simp add: ms_Star_Space_Nil)
next
  case (Cons x s)
  from Cons[of "Suc i"] obtain rest where
    "ms (Star Space) (Suc i, s) c =
       ((Suc i + length (takeWhile isWhiteSpace s), dropWhile isWhiteSpace s), c) # rest"
    by blast
  then show ?case by (simp add: ms_Star_Space_Cons)
qed

lemma ms_Star_Space_set:
  "(st', c') \<in> set (ms (Star Space) (i, s) c) \<Longrightarrow>
   \<exists>k\<le>length (takeWhile isWhiteSpace s). st' = (i + k, drop k s) \<and> c' = c"
proof (induction s arbitrary: i)
  case Nil
  then show ?case by (simp add: ms_Star_Space_Nil)
next
  case (Cons x s)
  show ?case
  proof (cases "(st', c') = ((i, x # s), c)")
    case True
    then show ?thesis by (intro exI[of _ 0]) simp
  next
    case False
    with Cons.prems have d: "isWhiteSpace x"
      and m: "(st', c') \<in> set (ms (Star Space) (Suc i, s) c)"
      by (auto simp: ms_Star_Space_Cons split: if_splits)
    from Cons.IH[OF m] obtain k where "k \<le> length (takeWhile isWhiteSpace s)"
      "st' = (Suc i + k, drop k s)" "c' = c" by blast
    with d show ?thesis by (intro exI[of _ "Suc k"]) simp
  qed
qed

lemma pipe_not_ws [simp]: "\<not> isWhiteSpace CHR ''|''"
  by (simp add: isWhiteSpace_def)

lemma contactSeparator_unfold:
  "contactSeparator = Seq (Star Space) (Seq (Chr CHR ''|'') (Star Space))"
  by (simp add: contactSeparator_def)

lemma sep_match:
  assumes "dropWhile isWhiteSpace s = CHR ''|'' # b"
  shows "\<exists>rest. ms contactSeparator (q, s) c =
     ((Suc (q + length (takeWhile isWhiteSpace s)) + length (takeWhile isWhiteSpace b),
       dropWhile isWhiteSpace b), c) # rest"
proof -
  obtain r1 where h1: "ms (Star Space) (q, s) c =
      ((q + length (takeWhile isWhiteSpace s), CHR ''|'' # b), c) # r1"
    using ms_Star_Space_head[of q s c] assms by auto
  obtain r2 where h2: "ms (Star Space) (Suc (q + length (takeWhile isWhiteSpace s)), b) c =
      ((Suc (q + length (takeWhile isWhiteSpace s)) + length (takeWhile isWhiteSpace b),
        dropWhile isWhiteSpace b), c) # r2"
    using ms_Star_Space_head[of "Suc (q + length (takeWhile isWhiteSpace s))" b c] by blast
  have "ms (Seq (Chr CHR ''|'') (Star Space)) (q + length (takeWhile isWhiteSpace s), CHR ''|'' # b) c
        = ms (Star Space) (Suc (q + length (takeWhile isWhiteSpace s)), b) c"
    by (subst ms.simps(7)) (simp add: ms.simps(2))
  then show ?thesis
    unfolding contactSeparator_unfold
    by (subst ms.simps(7)) (simp add: h1 h2)
qed

lemma sep_no_match:
  assumes "\<not> sep_at s"
  shows "ms contactSeparator (q, s) c = []"
proof -
  have "ms (Seq (Chr CHR ''|'') (Star Space)) st' c' = []"
    if m: "(st', c') \<in> set (ms (Star Space) (q, s) c)" for st' c'
  proof -
    from ms_Star_Space_set[OF m] obtain k where
      k: "k \<le> length (takeWhile isWhiteSpace s)" "st' = (q + k, drop k s)" by blast
    have "ms (Chr CHR ''|'') (q + k, drop k s) c' = []"
    proof (cases "k < length (takeWhile isWhiteSpace s)")
      case True
      then have "k < length s" using length_takeWhile_le[of isWhiteSpace s] by simp
      then have d: "drop k s = s ! k # drop (Suc k) s" by (simp add: Cons_nth_drop_Suc)
      from True have "takeWhile isWhiteSpace s ! k \<in> set (takeWhile isWhiteSpace s)" by simp
      then have "isWhiteSpace (takeWhile isWhiteSpace s ! k)" by (auto dest: set_takeWhileD)
      with True have "isWhiteSpace (s ! k)" by (simp add: takeWhile_nth)
      then have "s ! k \<noteq> CHR ''|''" by auto
      with d show ?thesis by (simp add: ms.simps(2))
    next
      case False
      with k have "k = length (takeWhile isWhiteSpace s)" by simp
      then have "drop k s = dropWhile isWhiteSpace s" by (simp add: dropWhile_eq_drop)
      with assms show ?thesis
        by (cases "dropWhile isWhiteSpace s") (simp_all add: sep_at_def ms.simps(2))
    qed
    with k show ?thesis by (subst ms.simps(7)) simp
  qed
  then show ?thesis
    unfolding contactSeparator_unfold
    by (subst ms.simps(7)) (auto simp: split_def)
qed

lemma trim_id: "no_lead s \<Longrightarrow> no_trail s \<Longrightarrow> trim s = s"
proof -
  assume l: "no_lead s" and t: "no_trail s"
  from l have a: "dropWhile isWhiteSpace s = s" by (cases s) (simp_all add: no_lead_def)
  from t have "dropWhile isWhiteSpace (rev s) = rev s"
    by (cases "rev s") (auto simp: no_trail_def last_rev[symmetric] simp del: last_rev)
  with a show ?thesis by (simp add: trim_def)
qed

lemma trim_append_ws: "\<forall>c\<in>set w. isWhiteSpace c \<Longrightarrow> trim (x @ w) = trim x"
proof (induction w rule: rev_induct)
  case Nil
  show ?case by simp
next
  case (snoc c w)
  then have "trim ((x @ w) @ [c]) = trim (x @ w)" by (intro trim_ws_snoc) simp
  with snoc show ?case by simp
qed

lemma no_lead_trim: "no_lead (trim s)"
proof -
  have "no_lead (rev (dropWhile isWhiteSpace (rev t)))" if "no_lead t" for t
  proof (cases "\<forall>c\<in>set t. isWhiteSpace c")
    case True
    then have "dropWhile isWhiteSpace (rev t) = []" by (simp add: dropWhile_eq_Nil_conv)
    then show ?thesis by (simp add: no_lead_def)
  next
    case False
    then obtain y where y: "y \<in> set t" "\<not> isWhiteSpace y" by blast
    then have "t \<noteq> []" by auto
    have "dropWhile isWhiteSpace (rev t) \<noteq> []"
      using y by (auto simp: dropWhile_eq_Nil_conv)
    moreover have "\<exists>zs. rev t = zs @ dropWhile isWhiteSpace (rev t)"
      by (metis takeWhile_dropWhile_id)
    then obtain zs where "rev t = zs @ dropWhile isWhiteSpace (rev t)" by blast
    then have "t = rev (dropWhile isWhiteSpace (rev t)) @ rev zs"
      by (metis rev_append rev_rev_ident)
    ultimately have "hd (rev (dropWhile isWhiteSpace (rev t))) = hd t"
      by (metis hd_append2 rev_is_Nil_conv)
    with that \<open>t \<noteq> []\<close> show ?thesis by (simp add: no_lead_def)
  qed
  moreover have "no_lead (dropWhile isWhiteSpace s)"
    using hd_dropWhile[of isWhiteSpace s] by (auto simp: no_lead_def)
  ultimately show ?thesis by (simp add: trim_def)
qed

lemma no_trail_trim: "no_trail (trim s)"
proof -
  have "dropWhile isWhiteSpace (rev (dropWhile isWhiteSpace s)) = []
        \<or> \<not> isWhiteSpace (hd (dropWhile isWhiteSpace (rev (dropWhile isWhiteSpace s))))"
    using hd_dropWhile[of isWhiteSpace "rev (dropWhile isWhiteSpace s)"] by blast
  then show ?thesis
    by (auto simp: no_trail_def trim_def last_rev)
qed

lemma split_chr_no_sep: "c \<notin> set s \<Longrightarrow> split_chr c s = [s]"
  by (induction s) auto

lemma split_chr_append_sep: "c \<notin> set a \<Longrightarrow> split_chr c (a @ c # b) = a # split_chr c b"
  by (induction a) auto

lemma trim_split_ws_Cons:
  assumes "isWhiteSpace x" "x \<noteq> c"
  shows "map trim (split_chr c (x # s)) = map trim (split_chr c s)"
proof -
  obtain l ls where "split_chr c s = l # ls" by (cases "split_chr c s") simp_all
  with assms show ?thesis by (simp add: trim_ws_Cons)
qed

lemma trim_split_ws_snoc:
  assumes "isWhiteSpace x" "x \<noteq> c"
  shows "map trim (split_chr c (s @ [x])) = map trim (split_chr c s)"
proof -
  have "split_chr c s = butlast (split_chr c s) @ [last (split_chr c s)]" by simp
  then obtain ks l where "split_chr c s = ks @ [l]" by metis
  with assms show ?thesis by (simp add: split_chr_snoc_other trim_ws_snoc)
qed

lemma trim_split_dropWhile:
  "\<not> isWhiteSpace c \<Longrightarrow>
   map trim (split_chr c (dropWhile isWhiteSpace s)) = map trim (split_chr c s)"
proof (induction s)
  case Nil
  show ?case by simp
next
  case (Cons x s)
  show ?case
  proof (cases "isWhiteSpace x")
    case True
    with Cons.prems have "x \<noteq> c" by auto
    from trim_split_ws_Cons[OF True this] Cons.IH[OF Cons.prems] True show ?thesis
      by (simp del: split_chr.simps)
  next
    case False
    then show ?thesis by simp
  qed
qed

lemma trim_split_dropWhile_rev:
  "\<not> isWhiteSpace c \<Longrightarrow>
   map trim (split_chr c (rev (dropWhile isWhiteSpace (rev s)))) = map trim (split_chr c s)"
proof (induction s rule: rev_induct)
  case Nil
  show ?case by simp
next
  case (snoc x s)
  show ?case
  proof (cases "isWhiteSpace x")
    case True
    with snoc.prems have "x \<noteq> c" by auto
    from trim_split_ws_snoc[OF True this] snoc.IH[OF snoc.prems] True show ?thesis
      by simp
  next
    case False
    then show ?thesis by simp
  qed
qed

lemma trim_split_trim:
  "\<not> isWhiteSpace c \<Longrightarrow> map trim (split_chr c (trim s)) = map trim (split_chr c s)"
proof -
  assume c: "\<not> isWhiteSpace c"
  have "trim s = rev (dropWhile isWhiteSpace (rev (dropWhile isWhiteSpace s)))"
    by (simp add: trim_def)
  then show ?thesis
    by (simp only: trim_split_dropWhile_rev[OF c] trim_split_dropWhile[OF c])
qed

lemma sep_at_pipe: "sep_at (CHR ''|'' # s)"
  by (simp add: sep_at_def)

lemma sep_at_ws_Cons: "isWhiteSpace x \<Longrightarrow> sep_at (x # s) = sep_at s"
  by (simp add: sep_at_def)

lemma split_loop_contact:
  assumes tr: "no_trail S"
  shows "p \<le> q \<Longrightarrow> q \<le> length S \<Longrightarrow> no_lead (drop p S) \<Longrightarrow>
    (\<forall>q'. p \<le> q' \<and> q' < q \<longrightarrow> \<not> sep_at (drop q' S)) \<Longrightarrow>
    split_loop contactSeparator 0 S p q =
      map (\<lambda>x. Some (trim x)) (split_chr CHR ''|'' (drop p S))"
proof (induction "length S - q" arbitrary: p q rule: less_induct)
  case less
  note pq = less.prems(1) and qS = less.prems(2) and lead = less.prems(3)
    and inv = less.prems(4)
  let ?x = "take (q - p) (drop p S)"
  have dp: "drop p S = ?x @ drop q S"
    using pq by (metis append_take_drop_id drop_drop le_add_diff_inverse2)
  have nopipe: "CHR ''|'' \<notin> set ?x"
  proof
    assume "CHR ''|'' \<in> set ?x"
    then obtain i where i: "i < length ?x" "?x ! i = CHR ''|''" by (auto simp: in_set_conv_nth)
    then have lt: "p + i < q" "p + i < length S" using qS by auto
    with i have "S ! (p + i) = CHR ''|''" by simp
    with lt have "drop (p + i) S = CHR ''|'' # drop (Suc (p + i)) S"
      by (simp add: Cons_nth_drop_Suc[symmetric])
    then have "sep_at (drop (p + i) S)" by (simp add: sep_at_pipe)
    with inv lt show False by simp
  qed
  have xlead: "no_lead ?x"
  proof (cases "?x = []")
    case True then show ?thesis by (simp add: no_lead_def)
  next
    case False
    then have "hd ?x = hd (drop p S)" by (metis dp hd_append2)
    moreover from False have "drop p S \<noteq> []" by auto
    ultimately show ?thesis using lead by (simp add: no_lead_def)
  qed
  show ?case
  proof (cases "q < length S")
    case False
    with qS have q: "q = length S" by simp
    then have x: "?x = drop p S" by simp
    have "no_trail (drop p S)"
    proof (cases "drop p S = []")
      case True then show ?thesis by (simp add: no_trail_def)
    next
      case False
      then have "last (drop p S) = last S" by simp
      moreover from False have "S \<noteq> []" by auto
      ultimately show ?thesis using tr False by (simp add: no_trail_def)
    qed
    with lead have "trim (drop p S) = drop p S" by (rule trim_id)
    moreover have "split_chr CHR ''|'' (drop p S) = [drop p S]"
      using nopipe x by (simp add: split_chr_no_sep)
    ultimately show ?thesis
      using q by (subst split_loop.simps) simp
  next
    case True
    show ?thesis
    proof (cases "sep_at (drop q S)")
      case False
      then have "ms contactSeparator (q, drop q S) no_caps = []" by (rule sep_no_match)
      with True have "split_loop contactSeparator 0 S p q = split_loop contactSeparator 0 S p (Suc q)"
        by (subst split_loop.simps) simp
      moreover have "split_loop contactSeparator 0 S p (Suc q) =
          map (\<lambda>x. Some (trim x)) (split_chr CHR ''|'' (drop p S))"
      proof (rule less.hyps)
        show "length S - Suc q < length S - q" using True by simp
        show "p \<le> Suc q" using pq by simp
        show "Suc q \<le> length S" using True by simp
        show "no_lead (drop p S)" by (rule lead)
        show "\<forall>q'. p \<le> q' \<and> q' < Suc q \<longrightarrow> \<not> sep_at (drop q' S)"
          using inv False by (auto simp: less_Suc_eq)
      qed
      ultimately show ?thesis by simp
    next
      case sep: True
      let ?w1 = "takeWhile isWhiteSpace (drop q S)"
      from sep obtain b where b: "dropWhile isWhiteSpace (drop q S) = CHR ''|'' # b"
        by (auto simp: sep_at_def split: list.splits)
      let ?w2 = "takeWhile isWhiteSpace b"
      let ?e = "Suc (q + length ?w1) + length ?w2"
      have dq: "drop q S = ?w1 @ CHR ''|'' # ?w2 @ dropWhile isWhiteSpace b"
        using takeWhile_dropWhile_id[of isWhiteSpace "drop q S"] b by simp
      then have "length (drop q S) = length ?w1 + 1 + length ?w2 + length (dropWhile isWhiteSpace b)"
        by (metis (no_types, lifting) One_nat_def add.assoc add_Suc_right length_Cons
            length_append plus_1_eq_Suc)
      with True have eS: "?e \<le> length S" by simp
      have de: "drop ?e S = dropWhile isWhiteSpace b"
      proof -
        have "drop ?e S = drop (Suc (length ?w1) + length ?w2) (drop q S)"
          by (simp add: add.commute add.left_commute)
        also have "\<dots> = drop (Suc (length ?w1) + length ?w2)
                          (?w1 @ CHR ''|'' # ?w2 @ dropWhile isWhiteSpace b)"
          using dq by simp
        also have "\<dots> = dropWhile isWhiteSpace b"
          by (simp add: dropWhile_eq_drop[symmetric])
        finally show ?thesis .
      qed
      obtain rest where m: "ms contactSeparator (q, drop q S) no_caps =
          ((?e, dropWhile isWhiteSpace b), no_caps) # rest"
        using sep_match[OF b, of q no_caps] by blast
      have ep: "?e \<noteq> p" using pq by simp
      have unfold: "split_loop contactSeparator 0 S p q =
          Some ?x # split_loop contactSeparator 0 S ?e ?e"
        using True m eS ep by (subst split_loop.simps) (simp add: min_absorb1)
      have rec: "split_loop contactSeparator 0 S ?e ?e =
          map (\<lambda>x. Some (trim x)) (split_chr CHR ''|'' (drop ?e S))"
      proof (rule less.hyps)
        show "length S - ?e < length S - q" using True eS by simp
        show "?e \<le> ?e" by simp
        show "?e \<le> length S" by (rule eS)
        show "no_lead (drop ?e S)"
          unfolding de using hd_dropWhile[of isWhiteSpace b] by (auto simp: no_lead_def)
        show "\<forall>q'. ?e \<le> q' \<and> q' < ?e \<longrightarrow> \<not> sep_at (drop q' S)" by auto
      qed
      have w1: "\<forall>c\<in>set ?w1. isWhiteSpace c" by (auto dest: set_takeWhileD)
      then have "CHR ''|'' \<notin> set ?w1" by auto
      with nopipe have "CHR ''|'' \<notin> set (?x @ ?w1)" by simp
      then have "split_chr CHR ''|'' ((?x @ ?w1) @ CHR ''|'' # b) = (?x @ ?w1) # split_chr CHR ''|'' b"
        by (rule split_chr_append_sep)
      moreover have "drop p S = (?x @ ?w1) @ CHR ''|'' # b"
        using dp takeWhile_dropWhile_id[of isWhiteSpace "drop q S"] b by simp
      ultimately have sp: "split_chr CHR ''|'' (drop p S) = (?x @ ?w1) # split_chr CHR ''|'' b"
        by simp
      have xtrail: "no_trail ?x"
      proof (cases "?x = []")
        case True then show ?thesis by (simp add: no_trail_def)
      next
        case False
        then have pq': "p < q" by auto
        then have lt: "q - 1 < length S" "p \<le> q - 1" "q - 1 < q" using True by auto
        have "last ?x = ?x ! (length ?x - 1)" using False by (rule last_conv_nth)
        also have "\<dots> = S ! (q - 1)" using pq' True by simp
        finally have lx: "last ?x = S ! (q - 1)" .
        have "\<not> isWhiteSpace (S ! (q - 1))"
        proof
          assume ws: "isWhiteSpace (S ! (q - 1))"
          have "drop (q - 1) S = S ! (q - 1) # drop q S"
            using lt(1) pq' Cons_nth_drop_Suc[of "q - 1" S] by simp
          with ws sep have "sep_at (drop (q - 1) S)" by (simp add: sep_at_ws_Cons)
          with inv lt show False by blast
        qed
        with lx False show ?thesis by (simp add: no_trail_def)
      qed
      have "trim (?x @ ?w1) = trim ?x" using w1 by (rule trim_append_ws)
      also have "\<dots> = ?x" using xlead xtrail by (rule trim_id)
      finally have tx: "trim (?x @ ?w1) = ?x" .
      have "map trim (split_chr CHR ''|'' (dropWhile isWhiteSpace b)) =
            map trim (split_chr CHR ''|'' b)"
        by (rule trim_split_dropWhile) simp
      then have "map Some (map trim (split_chr CHR ''|'' (dropWhile isWhiteSpace b))) =
            map Some (map trim (split_chr CHR ''|'' b))"
        by simp
      then have "map (\<lambda>x. Some (trim x)) (split_chr CHR ''|'' (dropWhile isWhiteSpace b)) =
            map (\<lambda>x. Some (trim x)) (split_chr CHR ''|'' b)"
        by (simp add: o_def)
      with unfold rec de sp tx show ?thesis by simp
    qed
  qed
qed

lemma rx_split_contact:
  assumes "no_lead S" "no_trail S"
  shows "rx_split contactSeparator 0 S = map (\<lambda>x. Some (trim x)) (split_chr CHR ''|'' S)"
proof (cases "S = []")
  case True
  have "\<not> sep_at []" by (simp add: sep_at_def)
  then have "ms contactSeparator (0, []) no_caps = []" by (rule sep_no_match)
  with True show ?thesis by (simp add: rx_split_def)
next
  case False
  have "split_loop contactSeparator 0 S 0 0 =
      map (\<lambda>x. Some (trim x)) (split_chr CHR ''|'' (drop 0 S))"
    using assms by (intro split_loop_contact) simp_all
  with False show ?thesis by (simp add: rx_split_def)
qed

lemma contact_fields:
  "map (\<lambda>f. case f of None \<Rightarrow> [] | Some t \<Rightarrow> t) (rx_split contactSeparator 0 (trim l)) =
   map trim (split_chr CHR ''|'' l)"
proof -
  have "map (\<lambda>f. case f of None \<Rightarrow> [] | Some t \<Rightarrow> t) (rx_split contactSeparator 0 (trim l)) =
        map trim (split_chr CHR ''|'' (trim l))"
    by (simp add: rx_split_contact[OF no_lead_trim no_trail_trim] o_def)
  then show ?thesis by (simp add: trim_split_trim)
qed

section \<open>The header\<close>

lemma name_of_line:
  assumes "startsWith ''# '' l \<or> \<not> includes_str ''# '' l"
  shows "trim (replace_str ''# '' [] l) = trim (strip_marker l)"
proof (cases "startsWith ''# '' l")
  case True
  then show ?thesis by (simp add: replace_str_prefix strip_marker_def numeral_2_eq_2)
next
  case False
  with assms show ?thesis by (simp add: replace_str_absent strip_marker_def)
qed

text \<open>
  Claim C6, as amended. Let \<open>l1\<close> and \<open>l2\<close> be the first two lines of the
  trimmed text that are not blank. When \<open>l1\<close> starts with \<^verbatim>\<open># \<close>, or has no
  \<^verbatim>\<open># \<close> anywhere, the name is \<open>l1\<close> with the leading marker stripped and then
  trimmed at both ends. The contact fields are the pieces of \<open>l2\<close> between its
  pipe characters, each trimmed at both ends: this is what trimming \<open>l2\<close> and
  splitting it at \<^verbatim>\<open>/\s*\|\s*/\<close> gives.
\<close>

theorem header_of_first_two_lines:
  assumes "resume_lines text = l1 # l2 # rest"
  shows "\<exists>d. parseResumeMarkdown (JString text) = Inr (Some d) \<and>
     (startsWith ''# '' l1 \<or> \<not> includes_str ''# '' l1 \<longrightarrow>
        name (header d) = trim (strip_marker l1)) \<and>
     contact (header d) = map trim (split_chr CHR ''|'' l2)"
proof -
  from parse_document[OF assms] obtain ps where
    "parseResumeMarkdown (JString text) =
       Inr (Some \<lparr>header =
                    \<lparr>name = trim (replace_str ''# '' [] l1),
                     contact = map (\<lambda>f. case f of None \<Rightarrow> [] | Some t \<Rightarrow> t)
                                   (rx_split contactSeparator 0 (trim l2))\<rparr>,
                  sections = ps\<rparr>)"
    by blast
  then show ?thesis
    by (simp add: contact_fields name_of_line)
qed

theorem header_of_first_two_lines_witness:
  "resume_lines ''  # Jane Doe \<newline>\<newline> jane@x.com |555-1111|  site.com  \<newline>## Skills'' =
     [''# Jane Doe '', '' jane@x.com |555-1111|  site.com  '', ''## Skills''] \<and>
   startsWith ''# '' ''# Jane Doe '' \<and>
   (\<exists>d. parseResumeMarkdown
          (JString ''  # Jane Doe \<newline>\<newline> jane@x.com |555-1111|  site.com  \<newline>## Skills'') =
          Inr (Some d) \<and>
        name (header d) = ''Jane Doe'' \<and>
        contact (header d) = [''jane@x.com'', ''555-1111'', ''site.com''])"
proof -
  have a: "resume_lines ''  # Jane Doe \<newline>\<newline> jane@x.com |555-1111|  site.com  \<newline>## Skills'' =
     [''# Jane Doe '', '' jane@x.com |555-1111|  site.com  '', ''## Skills'']" by code_simp
  have b: "startsWith ''# '' ''# Jane Doe ''" by code_simp
  have c: "trim (strip_marker ''# Jane Doe '') = ''Jane Doe''" by code_simp
  have d: "map trim (split_chr CHR ''|'' '' jane@x.com |555-1111|  site.com  '') =
     [''jane@x.com'', ''555-1111'', ''site.com'']" by code_simp
  from header_of_first_two_lines[OF a] b show ?thesis
    unfolding c d using a by auto
qed

text \<open>
  Claim C6 as stated fails: the name is trimmed after the marker is stripped, so
  the line \<^verbatim>\<open>#  Jane Doe\<close> gives the name \<^verbatim>\<open>Jane Doe\<close> and not the rest of the
  line as it stands.
\<close>

theorem header_name_counterexample:
  "parseResumeMarkdown (JString ''#  Jane Doe\<newline>jane@x.com'') =
     Inr (Some \<lparr>header = \<lparr>name = ''Jane Doe'', contact = [''jane@x.com'']\<rparr>, sections = []\<rparr>) \<and>
   strip_marker ''#  Jane Doe'' = '' Jane Doe''"
  by code_simp

text \<open>
  \<open>replace\<close> with a string pattern removes the first \<^verbatim>\<open># \<close> wherever it is, so
  a first line without a leading marker is not always taken as it stands.
\<close>

lemma marker_inside_line_example:
  "parseResumeMarkdown (JString ''C# Developer\<newline>jane@x.com'') =
     Inr (Some \<lparr>header = \<lparr>name = ''CDeveloper'', contact = [''jane@x.com'']\<rparr>, sections = []\<rparr>)"
  by code_simp

end
